theory Spec2Isabelle
  imports Main "HOL-Library.Word"
begin

section \<open>The magic-sequence tracker of \<^verbatim>\<open>csrc/emulator.cc\<close>\<close>

text \<open>
  The emulator watches the instruction the core reports each cycle for two fixed
  sequences of four \<^verbatim>\<open>addi a0, a0, imm\<close> encodings. The constants are the
  \<^verbatim>\<open>MAGIC_*\<close> macros of the source; the window holds \<^verbatim>\<open>unsigned long\<close> values.
\<close>

type_synonym ulong = "64 word"

definition MAGIC_LEN :: nat where "MAGIC_LEN = 4"

definition MAGIC_START0 :: ulong where "MAGIC_START0 = 0x04550513"
definition MAGIC_START1 :: ulong where "MAGIC_START1 = 0x04d50513"
definition MAGIC_START2 :: ulong where "MAGIC_START2 = 0x04250513"
definition MAGIC_START3 :: ulong where "MAGIC_START3 = 0x04550513"

definition MAGIC_STOP0 :: ulong where "MAGIC_STOP0 = 0x04350513"
definition MAGIC_STOP1 :: ulong where "MAGIC_STOP1 = 0x04f50513"
definition MAGIC_STOP2 :: ulong where "MAGIC_STOP2 = 0x05350513"
definition MAGIC_STOP3 :: ulong where "MAGIC_STOP3 = 0x04d50513"

subsection \<open>\<^verbatim>\<open>boost::circular_buffer\<close>, as far as the tracker uses it\<close>

text \<open>
  A circular buffer of capacity \<open>cap\<close> is the list of its elements, oldest first.
  \<^verbatim>\<open>push_back\<close> on a full buffer overwrites the oldest element. \<^verbatim>\<open>operator[]\<close>
  requires \<open>index < size()\<close>: the library asserts it in a debug build and reads a slot
  that holds no element otherwise, so an index at or past the size is an error of the
  model.
\<close>

datatype error = CbIndexOutOfRange

definition cb_push_back :: "nat \<Rightarrow> 'a list \<Rightarrow> 'a \<Rightarrow> 'a list" where
  "cb_push_back cap xs x =
     (if cap = 0 then xs
      else if length xs < cap then xs @ [x]
      else tl xs @ [x])"

definition cb_at :: "'a list \<Rightarrow> nat \<Rightarrow> error + 'a" where
  "cb_at xs i = (if i < length xs then Inr (xs ! i) else Inl CbIndexOutOfRange)"

text \<open>\<^verbatim>\<open>insts[i] == m\<close>, and the short-circuit \<^verbatim>\<open>&&\<close> of C++ over operands that can fail:
  the right operand is evaluated only when the left one is true.\<close>

definition cb_eq :: "ulong list \<Rightarrow> nat \<Rightarrow> ulong \<Rightarrow> error + bool" where
  "cb_eq xs i m = (case cb_at xs i of Inl e \<Rightarrow> Inl e | Inr v \<Rightarrow> Inr (v = m))"

definition and_also :: "error + bool \<Rightarrow> error + bool \<Rightarrow> error + bool" where
  "and_also a b = (case a of Inl e \<Rightarrow> Inl e | Inr False \<Rightarrow> Inr False | Inr True \<Rightarrow> b)"

subsection \<open>\<^verbatim>\<open>class MagicTracker\<close>\<close>

record MagicTracker =
  insts :: "ulong list"
  needs_reset :: bool
  needs_emit_cycle_count :: bool

definition MagicTracker_new :: MagicTracker where
  "MagicTracker_new = \<lparr>insts = [], needs_reset = False, needs_emit_cycle_count = False\<rparr>"

definition at_start_magic :: "ulong list \<Rightarrow> error + bool" where
  "at_start_magic xs =
     and_also (and_also (and_also (cb_eq xs 0 MAGIC_START0) (cb_eq xs 1 MAGIC_START1))
       (cb_eq xs 2 MAGIC_START2)) (cb_eq xs 3 MAGIC_START3)"

definition at_stop_magic :: "ulong list \<Rightarrow> error + bool" where
  "at_stop_magic xs =
     and_also (and_also (and_also (cb_eq xs 0 MAGIC_STOP0) (cb_eq xs 1 MAGIC_STOP1))
       (cb_eq xs 2 MAGIC_STOP2)) (cb_eq xs 3 MAGIC_STOP3)"

text \<open>\<^verbatim>\<open>nextInst\<close>: \<open>inst\<close> is a \<^verbatim>\<open>dat_t<32>\<close>, widened by \<^verbatim>\<open>to_ulong()\<close>.\<close>

definition nextInst :: "MagicTracker \<Rightarrow> 32 word \<Rightarrow> error + MagicTracker" where
  "nextInst t inst =
     (if insts t = [] \<or> ucast inst \<noteq> last (insts t) then
        (let t1 = t\<lparr>insts := cb_push_back MAGIC_LEN (insts t) (ucast inst)\<rparr> in
         case at_start_magic (insts t1) of
           Inl e \<Rightarrow> Inl e
         | Inr b1 \<Rightarrow>
             (let t2 = (if b1 then t1\<lparr>needs_reset := True\<rparr> else t1) in
              case at_stop_magic (insts t2) of
                Inl e \<Rightarrow> Inl e
              | Inr b2 \<Rightarrow> Inr (if b2 then t2\<lparr>needs_emit_cycle_count := True\<rparr> else t2)))
      else Inr t)"

definition hitStart :: "MagicTracker \<Rightarrow> bool \<times> MagicTracker" where
  "hitStart t = (if needs_reset t then (True, t\<lparr>needs_reset := False\<rparr>) else (False, t))"

definition hitStop :: "MagicTracker \<Rightarrow> bool \<times> MagicTracker" where
  "hitStop t =
     (if needs_emit_cycle_count t then (True, t\<lparr>needs_emit_cycle_count := False\<rparr>)
      else (False, t))"


text \<open>
  What the tracker does during one iteration of the simulation loop, in the order of
  \<^verbatim>\<open>main\<close>: \<^verbatim>\<open>nextInst\<close>, then \<^verbatim>\<open>hitStart\<close>, then \<^verbatim>\<open>hitStop\<close>. The result is the two
  answers and the tracker afterwards.
\<close>

definition tracker_cycle :: "MagicTracker \<Rightarrow> 32 word \<Rightarrow> error + (bool \<times> bool) \<times> MagicTracker" where
  "tracker_cycle t inst =
     (case nextInst t inst of
        Inl e \<Rightarrow> Inl e
      | Inr t1 \<Rightarrow>
          (let (hs, t2) = hitStart t1; (hp, t3) = hitStop t2 in Inr ((hs, hp), t3)))"

fun tracker_cycles ::
  "MagicTracker \<Rightarrow> 32 word list \<Rightarrow> error + (bool \<times> bool) list \<times> MagicTracker" where
  "tracker_cycles t [] = Inr ([], t)"
| "tracker_cycles t (i # is) =
     (case tracker_cycle t i of
        Inl e \<Rightarrow> Inl e
      | Inr (ev, t') \<Rightarrow>
          (case tracker_cycles t' is of
             Inl e \<Rightarrow> Inl e
           | Inr (evs, t'') \<Rightarrow> Inr (ev # evs, t'')))"

section \<open>The simulation loop of \<^verbatim>\<open>main\<close>\<close>

text \<open>
  The hardware model, the memory models and the host transport are outside the
  emulator: what they answer during an iteration is an input of that iteration, and
  every call the loop makes to them, and every line it prints, is appended to a list of
  events in program order. The signals of the memory channels are wired by a generated
  fragment that the source includes; the model records the per-channel calls and not
  their payloads.
\<close>

datatype event =
    MmDrive nat
  | ClockLo
  | EvalError
  | MmTick nat
  | HtifRecv
  | HtifSend "64 word"
  | Print
  | ResetMsg
  | CycleCountMsg int
  | Dump "64 word"
  | ClockHi
  | CloseVcd
  | FailedMsg int "64 word"
  | TimeoutMsg "64 word"
  | CompletedMsg "64 word"

text \<open>The options fixed by the command line, and \<^verbatim>\<open>N_MEM_CHANNELS\<close> of the generated
  header.\<close>

record config =
  N_MEM_CHANNELS :: nat
  vcd :: bool
  log :: bool
  print_cycles :: bool
  start :: "64 word"

text \<open>The variables of \<^verbatim>\<open>main\<close> that the loop changes, the two \<^verbatim>\<open>static\<close> locals of the
  host block, and the three host inputs of the hardware model that the loop drives.\<close>

record sim_state =
  max_cycles :: "64 word"
  trace_count :: "64 word"
  ret :: int
  tracker :: MagicTracker
  htif_in_valid :: bool
  htif_in_bits :: "64 word"
  Top_io_host_in_valid :: bool
  Top_io_host_in_bits :: "64 word"
  Top_io_host_out_ready :: bool
  events :: "event list"

text \<open>The answers of the environment during one iteration: \<^verbatim>\<open>htif->done()\<close> at the loop
  head, whether \<^verbatim>\<open>clock_lo\<close> throws, the outputs of the hardware model read afterwards,
  the result of \<^verbatim>\<open>recv_nonblocking\<close> (return value and buffer contents) should it be
  called, and the instruction \<^verbatim>\<open>getInst()\<close> reports.\<close>

record cycle_in =
  htif_done :: bool
  clock_lo_throws :: bool
  Top_io_host_clk_edge :: bool
  Top_io_host_in_ready :: bool
  Top_io_host_out_valid :: bool
  Top_io_host_out_bits :: "64 word"
  recv_ret :: bool
  recv_buf :: "64 word"
  getInst :: "32 word"

definition init_state :: "64 word \<Rightarrow> 64 word \<Rightarrow> sim_state" where
  "init_state budget in_bits0 =
     \<lparr>max_cycles = budget, trace_count = 0, ret = 0, tracker = MagicTracker_new,
      htif_in_valid = False, htif_in_bits = 0,
      Top_io_host_in_valid = False, Top_io_host_in_bits = in_bits0,
      Top_io_host_out_ready = False, events = []\<rparr>"

definition emit :: "event list \<Rightarrow> sim_state \<Rightarrow> sim_state" where
  "emit evs s = s\<lparr>events := events s @ evs\<rparr>"

text \<open>Lines 259--274: the responses of each memory model are copied to the inputs of the
  hardware model.\<close>

definition mem_drive :: "config \<Rightarrow> sim_state \<Rightarrow> sim_state" where
  "mem_drive cfg s = emit (map MmDrive [0..<N_MEM_CHANNELS cfg]) s"

text \<open>Lines 276--282: the combinational evaluation and its handler.\<close>

definition eval_clock_lo :: "cycle_in \<Rightarrow> sim_state \<Rightarrow> sim_state" where
  "eval_clock_lo c s =
     (if clock_lo_throws c
      then emit [ClockLo, EvalError] (s\<lparr>max_cycles := trace_count s, ret := 1\<rparr>)
      else emit [ClockLo] s)"

text \<open>Lines 284--306.\<close>

definition mem_tick :: "config \<Rightarrow> sim_state \<Rightarrow> sim_state" where
  "mem_tick cfg s = emit (map MmTick [0..<N_MEM_CHANNELS cfg]) s"

text \<open>Lines 308--320: the host block.\<close>

definition host_exchange :: "cycle_in \<Rightarrow> sim_state \<Rightarrow> sim_state" where
  "host_exchange c s =
     (if Top_io_host_clk_edge c then
        (let s1 = (if Top_io_host_in_ready c \<or> \<not> htif_in_valid s
                   then emit [HtifRecv] (s\<lparr>htif_in_valid := recv_ret c, htif_in_bits := recv_buf c\<rparr>)
                   else s);
             s2 = s1\<lparr>Top_io_host_in_valid := htif_in_valid s1,
                     Top_io_host_in_bits := htif_in_bits s1\<rparr>;
             s3 = (if Top_io_host_out_valid c then emit [HtifSend (Top_io_host_out_bits c)] s2
                   else s2)
         in s3\<lparr>Top_io_host_out_ready := True\<rparr>)
      else s)"

text \<open>Lines 322--323.\<close>

definition diag_print :: "config \<Rightarrow> sim_state \<Rightarrow> sim_state" where
  "diag_print cfg s = (if log cfg \<and> start cfg \<le> trace_count s then emit [Print] s else s)"

text \<open>
  Line 334 prints the 64-bit counter with the conversion \<^verbatim>\<open>%d\<close>, which takes an \<^verbatim>\<open>int\<close>:
  the number printed is the low 32 bits of the counter read as a signed value.
\<close>

definition printf_d :: "64 word \<Rightarrow> int" where
  "printf_d n = sint (ucast n :: 32 word)"

text \<open>Lines 327--335: the tracker is shown the current instruction and asked for both
  events. The second \<^verbatim>\<open>printf\<close> is given the counter as it is then.\<close>

definition observe :: "cycle_in \<Rightarrow> sim_state \<Rightarrow> error + sim_state" where
  "observe c s =
     (case nextInst (tracker s) (getInst c) of
        Inl e \<Rightarrow> Inl e
      | Inr t1 \<Rightarrow>
          (let (hs, t2) = hitStart t1;
               s1 = (if hs then (emit [ResetMsg] s)\<lparr>trace_count := 0\<rparr> else s);
               (hp, t3) = hitStop t2;
               s2 = (if hp then emit [CycleCountMsg (printf_d (trace_count s1))] s1 else s1)
           in Inr (s2\<lparr>tracker := t3\<rparr>)))"

text \<open>Lines 339--341.\<close>

definition trace_due :: "config \<Rightarrow> 64 word \<Rightarrow> bool" where
  "trace_due cfg n = (vcd cfg \<and> (n = 0 \<or> start cfg \<le> n))"

definition trace_dump :: "config \<Rightarrow> sim_state \<Rightarrow> sim_state" where
  "trace_dump cfg s =
     (if trace_due cfg (trace_count s) then emit [Dump (trace_count s)] s else s)"

text \<open>Lines 343--344.\<close>

definition clock_hi :: "sim_state \<Rightarrow> sim_state" where
  "clock_hi s = (emit [ClockHi] s)\<lparr>trace_count := trace_count s + 1\<rparr>"

definition loop_body :: "config \<Rightarrow> sim_state \<Rightarrow> cycle_in \<Rightarrow> error + sim_state" where
  "loop_body cfg s c =
     (case observe c (diag_print cfg (host_exchange c (mem_tick cfg
               (eval_clock_lo c (mem_drive cfg s))))) of
        Inl e \<Rightarrow> Inl e
      | Inr s' \<Rightarrow> Inr (clock_hi (trace_dump cfg s')))"

text \<open>Line 257.\<close>

definition loop_cond :: "sim_state \<Rightarrow> cycle_in \<Rightarrow> bool" where
  "loop_cond s c = (\<not> htif_done c \<and> trace_count s < max_cycles s \<and> ret s = 0)"

text \<open>
  The loop need not end (the transport may never be done while start events keep
  resetting the counter), so it runs on a finite list of inputs, one element per
  evaluation of the loop head: \<open>None\<close> when the inputs end before the loop does.
\<close>

fun main_loop :: "config \<Rightarrow> sim_state \<Rightarrow> cycle_in list \<Rightarrow> (error + sim_state) option" where
  "main_loop cfg s [] = None"
| "main_loop cfg s (c # cs) =
     (if loop_cond s c then
        (case loop_body cfg s c of
           Inl e \<Rightarrow> Some (Inl e)
         | Inr s' \<Rightarrow> main_loop cfg s' cs)
      else Some (Inr s))"

text \<open>Lines 347--367: \<open>code\<close> is what \<^verbatim>\<open>htif->exit_code()\<close> answers; \<open>ret\<close> afterwards is the
  value \<^verbatim>\<open>main\<close> returns.\<close>

definition finish :: "config \<Rightarrow> int \<Rightarrow> sim_state \<Rightarrow> sim_state" where
  "finish cfg code s =
     (let s1 = (if vcd cfg then emit [CloseVcd] s else s) in
      if code \<noteq> 0 then (emit [FailedMsg code (trace_count s1)] s1)\<lparr>ret := code\<rparr>
      else if trace_count s1 = max_cycles s1
        then (emit [TimeoutMsg (trace_count s1)] s1)\<lparr>ret := 2\<rparr>
      else if log cfg \<or> print_cycles cfg then emit [CompletedMsg (trace_count s1)] s1
      else s1)"

definition emulator_main ::
  "config \<Rightarrow> 64 word \<Rightarrow> 64 word \<Rightarrow> cycle_in list \<Rightarrow> int \<Rightarrow> (error + sim_state) option" where
  "emulator_main cfg budget in_bits0 cs code =
     (case main_loop cfg (init_state budget in_bits0) cs of
        None \<Rightarrow> None
      | Some (Inl e) \<Rightarrow> Some (Inl e)
      | Some (Inr s) \<Rightarrow> Some (Inr (finish cfg code s)))"

text \<open>The states the loop can be in at its head: \<open>iterate\<close> runs one iteration per input,
  each of them entered through the loop condition, and is \<open>None\<close> when the loop would
  have ended earlier or the tracker read outside its window.\<close>

fun iterate :: "config \<Rightarrow> sim_state \<Rightarrow> cycle_in list \<Rightarrow> sim_state option" where
  "iterate cfg s [] = Some s"
| "iterate cfg s (c # cs) =
     (if loop_cond s c then
        (case loop_body cfg s c of Inl e \<Rightarrow> None | Inr s' \<Rightarrow> iterate cfg s' cs)
      else None)"

text \<open>The events an iteration (or a run) appended: those of \<open>s'\<close> after those of \<open>s\<close>.\<close>

definition new_events :: "sim_state \<Rightarrow> sim_state \<Rightarrow> event list" where
  "new_events s s' = drop (length (events s)) (events s')"

text \<open>
  A relation between the counter and the tracker's window that holds at every loop head
  of a run: no event is pending; the window is empty when the counter is 0; and
  when the counter is 1 the window holds one element (the run has just begun) or the
  start sequence (the counter has just been reset).
\<close>

definition window_inv :: "sim_state \<Rightarrow> bool" where
  "window_inv s \<longleftrightarrow>
     \<not> needs_reset (tracker s) \<and> \<not> needs_emit_cycle_count (tracker s) \<and>
     (trace_count s = 0 \<longrightarrow> insts (tracker s) = []) \<and>
     (trace_count s = 1 \<longrightarrow> length (insts (tracker s)) = 1
        \<or> insts (tracker s) = [MAGIC_START0, MAGIC_START1, MAGIC_START2, MAGIC_START3])
     \<and> length (insts (tracker s)) \<le> MAGIC_LEN"

text \<open>
  The windows on which every read of \<^verbatim>\<open>nextInst\<close> is inside the buffer: a full one, or
  one whose oldest element is the first word of neither sequence, so that both
  comparisons stop at index 0.
\<close>

definition reads_in_range :: "MagicTracker \<Rightarrow> bool" where
  "reads_in_range t \<longleftrightarrow>
     length (insts t) = MAGIC_LEN
     \<or> (insts t \<noteq> [] \<and> hd (insts t) \<noteq> MAGIC_START0 \<and> hd (insts t) \<noteq> MAGIC_STOP0)"

text \<open>
  Notions for stating what a run does. The counter after a sequence of iterations, given
  for each whether \<^verbatim>\<open>hitStart\<close> answered true; the events that report a cycle count; and,
  read off the events, the number of cycles completed (\<^verbatim>\<open>clock_hi\<close> calls) since the last
  reset of the counter, with \<open>k\<close> of them before the events.
\<close>

fun counter_after :: "64 word \<Rightarrow> bool list \<Rightarrow> 64 word" where
  "counter_after n [] = n"
| "counter_after n (b # bs) = counter_after ((if b then 0 else n) + 1) bs"

definition is_report :: "event \<Rightarrow> bool" where
  "is_report e = (case e of CycleCountMsg n \<Rightarrow> True | _ \<Rightarrow> False)"

fun elapsed :: "nat \<Rightarrow> event list \<Rightarrow> nat" where
  "elapsed k [] = k"
| "elapsed k (ResetMsg # es) = elapsed 0 es"
| "elapsed k (ClockHi # es) = elapsed (Suc k) es"
| "elapsed k (e # es) = elapsed k es"

text \<open>Every count printed is that number of cycles, as long as the number is below
  \<open>2 ^ 31\<close> and so survives the conversion of line 334.\<close>

fun reports_exact :: "nat \<Rightarrow> event list \<Rightarrow> bool" where
  "reports_exact k [] = True"
| "reports_exact k (CycleCountMsg n # es) = ((k < 2 ^ 31 \<longrightarrow> n = int k) \<and> reports_exact k es)"
| "reports_exact k (ResetMsg # es) = reports_exact 0 es"
| "reports_exact k (ClockHi # es) = reports_exact (Suc k) es"
| "reports_exact k (e # es) = reports_exact k es"

text \<open>The cycle counts a sequence of iterations prints, given the counter before it and
  the two answers of the tracker in each iteration.\<close>

fun reports_of :: "64 word \<Rightarrow> (bool \<times> bool) list \<Rightarrow> event list" where
  "reports_of n [] = []"
| "reports_of n ((hs, hp) # evs) =
     (if hp then [CycleCountMsg (printf_d (if hs then 0 else n))] else [])
     @ reports_of ((if hs then 0 else n) + 1) evs"

text \<open>At every loop head of a run the counter is the number of cycles completed since the last
  reset, and so was every count reported.\<close>

definition count_inv :: "sim_state \<Rightarrow> bool" where
  "count_inv s \<longleftrightarrow> reports_exact 0 (events s) \<and> unat (trace_count s) = elapsed 0 (events s)"

text \<open>A tracker with the given window and no event pending.\<close>

abbreviation win :: "ulong list \<Rightarrow> MagicTracker" where
  "win xs \<equiv> \<lparr>insts = xs, needs_reset = False, needs_emit_cycle_count = False\<rparr>"

text \<open>Concrete inputs for the examples: a configuration with one memory channel, tracing
  on from cycle 10, and an iteration in which nothing happens but the instruction \<open>i\<close>
  being reported.\<close>

abbreviation cfg0 :: config where
  "cfg0 \<equiv> \<lparr>N_MEM_CHANNELS = 1, vcd = True, log = False, print_cycles = False, start = 10\<rparr>"

abbreviation quiet :: "32 word \<Rightarrow> cycle_in" where
  "quiet i \<equiv> \<lparr>htif_done = False, clock_lo_throws = False, Top_io_host_clk_edge = False,
     Top_io_host_in_ready = False, Top_io_host_out_valid = False, Top_io_host_out_bits = 0,
     recv_ret = False, recv_buf = 0, getInst = i\<rparr>"

text \<open>An iteration on a host clock edge in which \<^verbatim>\<open>clock_lo\<close> throws, the hardware model
  offers an outbound frame and the transport has an inbound frame.\<close>

abbreviation failing :: "32 word \<Rightarrow> cycle_in" where
  "failing i \<equiv> \<lparr>htif_done = False, clock_lo_throws = True, Top_io_host_clk_edge = True,
     Top_io_host_in_ready = False, Top_io_host_out_valid = True, Top_io_host_out_bits = 5,
     recv_ret = True, recv_buf = 7, getInst = i\<rparr>"

section \<open>Facts about the model\<close>

lemmas magic_defs = MAGIC_START0_def MAGIC_START1_def MAGIC_START2_def MAGIC_START3_def
  MAGIC_STOP0_def MAGIC_STOP1_def MAGIC_STOP2_def MAGIC_STOP3_def

lemmas magic_check_defs = at_start_magic_def at_stop_magic_def cb_eq_def cb_at_def and_also_def

lemmas tracker_defs = nextInst_def hitStart_def hitStop_def tracker_cycle_def cb_push_back_def
  MAGIC_LEN_def magic_check_defs magic_defs MagicTracker_new_def Let_def

lemmas body_defs = loop_body_def observe_def diag_print_def host_exchange_def mem_tick_def
  eval_clock_lo_def mem_drive_def trace_dump_def trace_due_def clock_hi_def emit_def
  init_state_def tracker_defs

subsection \<open>The tracker\<close>

lemma cb_push_back_last:
  "0 < cap \<Longrightarrow> cb_push_back cap xs x \<noteq> [] \<and> last (cb_push_back cap xs x) = x"
  by (simp add: cb_push_back_def)

lemma cb_push_back_length:
  "length xs \<le> cap \<Longrightarrow> length (cb_push_back cap xs x) \<le> cap"
  by (cases xs) (auto simp: cb_push_back_def)

lemma nextInst_back:
  assumes "nextInst t i = Inr t'"
  shows "insts t' \<noteq> [] \<and> last (insts t') = ucast i"
  using assms cb_push_back_last [of MAGIC_LEN "insts t" "ucast i"]
  by (auto simp: nextInst_def Let_def MAGIC_LEN_def split: if_splits sum.splits)




lemma nextInst_not_pushed:
  "insts t \<noteq> [] \<Longrightarrow> last (insts t) = ucast i \<Longrightarrow> nextInst t i = Inr t"
  by (simp add: nextInst_def)

lemma length_le4_cases:
  assumes "length xs \<le> MAGIC_LEN"
  obtains "xs = []" | a where "xs = [a]" | a b where "xs = [a, b]"
  | a b c where "xs = [a, b, c]" | a b c d where "xs = [a, b, c, d]"
proof (cases xs)
  case Nil then show ?thesis using that by simp
next
  case (Cons a xs1) note 1 = this
  show ?thesis
  proof (cases xs1)
    case Nil then show ?thesis using 1 that by simp
  next
    case (Cons b xs2) note 2 = this
    show ?thesis
    proof (cases xs2)
      case Nil then show ?thesis using 1 2 that by simp
    next
      case (Cons c xs3) note 3 = this
      show ?thesis
      proof (cases xs3)
        case Nil then show ?thesis using 1 2 3 that by simp
      next
        case (Cons d xs4)
        then have "xs4 = []" using assms 1 2 3 by (simp add: MAGIC_LEN_def)
        then show ?thesis using 1 2 3 Cons that by simp
      qed
    qed
  qed
qed

lemma nextInst_start:
  assumes "nextInst t i = Inr t'" "\<not> needs_reset t" "length (insts t) \<le> MAGIC_LEN"
  shows "length (insts t') \<le> MAGIC_LEN \<and> insts t' \<noteq> [] \<and>
     (needs_reset t' \<longrightarrow> insts t' = [MAGIC_START0, MAGIC_START1, MAGIC_START2, MAGIC_START3]
         \<and> 3 \<le> length (insts t)
         \<and> insts t \<noteq> [MAGIC_START0, MAGIC_START1, MAGIC_START2, MAGIC_START3])
     \<and> (insts t = [] \<longrightarrow> length (insts t') = 1)"
  using assms(3)
proof (cases "insts t" rule: length_le4_cases)
  case 1
  with assms(1,2) show ?thesis
    by (auto simp: tracker_defs split: if_splits bool.splits)
next
  case (2 a)
  with assms(1,2) show ?thesis
    by (auto simp: tracker_defs split: if_splits bool.splits)
next
  case (3 a b)
  with assms(1,2) show ?thesis
    by (auto simp: tracker_defs split: if_splits bool.splits)
next
  case (4 a b c)
  with assms(1,2) show ?thesis
    by (auto simp: tracker_defs split: if_splits bool.splits)
next
  case (5 a b c d)
  with assms(1,2) show ?thesis
    by (auto simp: tracker_defs split: if_splits bool.splits)
qed


lemma tracker_cycle_Inr:
  "tracker_cycle t i = Inr ((hs, hp), t') \<longleftrightarrow>
     (\<exists>t1. nextInst t i = Inr t1 \<and> hs = needs_reset t1 \<and> hp = needs_emit_cycle_count t1
        \<and> t' = t1\<lparr>needs_reset := False, needs_emit_cycle_count := False\<rparr>)"
  by (cases "nextInst t i") (auto simp: tracker_cycle_def hitStart_def hitStop_def)

subsection \<open>One iteration of the loop\<close>

lemma emit_fields [simp]:
  "max_cycles (emit evs s) = max_cycles s"
  "trace_count (emit evs s) = trace_count s"
  "ret (emit evs s) = ret s"
  "tracker (emit evs s) = tracker s"
  "htif_in_valid (emit evs s) = htif_in_valid s"
  "htif_in_bits (emit evs s) = htif_in_bits s"
  "Top_io_host_in_valid (emit evs s) = Top_io_host_in_valid s"
  "Top_io_host_in_bits (emit evs s) = Top_io_host_in_bits s"
  "Top_io_host_out_ready (emit evs s) = Top_io_host_out_ready s"
  "events (emit evs s) = events s @ evs"
  by (simp_all add: emit_def)

lemma observe_tracker_cycle:
  "observe c s =
     (case tracker_cycle (tracker s) (getInst c) of
        Inl e \<Rightarrow> Inl e
      | Inr ((hs, hp), t') \<Rightarrow>
          Inr (s\<lparr>trace_count := (if hs then 0 else trace_count s),
                 tracker := t',
                 events := events s @ (if hs then [ResetMsg] else [])
                   @ (if hp then [CycleCountMsg (printf_d (if hs then 0 else trace_count s))] else [])\<rparr>))"
  by (simp add: observe_def tracker_cycle_def emit_def Let_def split: sum.splits prod.splits)

lemma host_exchange_fields:
  "max_cycles (host_exchange c s) = max_cycles s"
  "trace_count (host_exchange c s) = trace_count s"
  "ret (host_exchange c s) = ret s"
  "tracker (host_exchange c s) = tracker s"
  "htif_in_valid (host_exchange c s) =
     (if Top_io_host_clk_edge c \<and> (Top_io_host_in_ready c \<or> \<not> htif_in_valid s)
      then recv_ret c else htif_in_valid s)"
  "htif_in_bits (host_exchange c s) =
     (if Top_io_host_clk_edge c \<and> (Top_io_host_in_ready c \<or> \<not> htif_in_valid s)
      then recv_buf c else htif_in_bits s)"
  "Top_io_host_in_valid (host_exchange c s) =
     (if Top_io_host_clk_edge c then htif_in_valid (host_exchange c s)
      else Top_io_host_in_valid s)"
  "Top_io_host_in_bits (host_exchange c s) =
     (if Top_io_host_clk_edge c then htif_in_bits (host_exchange c s)
      else Top_io_host_in_bits s)"
  "Top_io_host_out_ready (host_exchange c s) =
     (Top_io_host_clk_edge c \<or> Top_io_host_out_ready s)"
  "events (host_exchange c s) = events s @
     (if Top_io_host_clk_edge c then
        (if Top_io_host_in_ready c \<or> \<not> htif_in_valid s then [HtifRecv] else [])
        @ (if Top_io_host_out_valid c then [HtifSend (Top_io_host_out_bits c)] else [])
      else [])"
  by (simp_all add: host_exchange_def Let_def)

lemma loop_body_result:
  assumes "loop_body cfg s c = Inr s'"
  obtains hs hp t' where
    "tracker_cycle (tracker s) (getInst c) = Inr ((hs, hp), t')"
    "tracker s' = t'"
    "trace_count s' = (if hs then 0 else trace_count s) + 1"
    "max_cycles s' = (if clock_lo_throws c then trace_count s else max_cycles s)"
    "ret s' = (if clock_lo_throws c then 1 else ret s)"
    "htif_in_valid s' =
       (if Top_io_host_clk_edge c \<and> (Top_io_host_in_ready c \<or> \<not> htif_in_valid s)
        then recv_ret c else htif_in_valid s)"
    "htif_in_bits s' =
       (if Top_io_host_clk_edge c \<and> (Top_io_host_in_ready c \<or> \<not> htif_in_valid s)
        then recv_buf c else htif_in_bits s)"
    "Top_io_host_in_valid s' =
       (if Top_io_host_clk_edge c then htif_in_valid s' else Top_io_host_in_valid s)"
    "Top_io_host_in_bits s' =
       (if Top_io_host_clk_edge c then htif_in_bits s' else Top_io_host_in_bits s)"
    "Top_io_host_out_ready s' = (Top_io_host_clk_edge c \<or> Top_io_host_out_ready s)"
    "events s' = events s
       @ map MmDrive [0..<N_MEM_CHANNELS cfg]
       @ ClockLo # (if clock_lo_throws c then [EvalError] else [])
       @ map MmTick [0..<N_MEM_CHANNELS cfg]
       @ (if Top_io_host_clk_edge c then
            (if Top_io_host_in_ready c \<or> \<not> htif_in_valid s then [HtifRecv] else [])
            @ (if Top_io_host_out_valid c then [HtifSend (Top_io_host_out_bits c)] else [])
          else [])
       @ (if log cfg \<and> start cfg \<le> trace_count s then [Print] else [])
       @ (if hs then [ResetMsg] else [])
       @ (if hp then [CycleCountMsg (printf_d (if hs then 0 else trace_count s))] else [])
       @ (if trace_due cfg (if hs then 0 else trace_count s)
          then [Dump (if hs then 0 else trace_count s)] else [])
       @ [ClockHi]"
proof -
  let ?p = "diag_print cfg (host_exchange c (mem_tick cfg (eval_clock_lo c (mem_drive cfg s))))"
  have p: "trace_count ?p = trace_count s" "tracker ?p = tracker s"
    "max_cycles ?p = (if clock_lo_throws c then trace_count s else max_cycles s)"
    "ret ?p = (if clock_lo_throws c then 1 else ret s)"
    by (simp_all add: diag_print_def host_exchange_fields mem_tick_def eval_clock_lo_def mem_drive_def)
  have h: "htif_in_valid ?p =
       (if Top_io_host_clk_edge c \<and> (Top_io_host_in_ready c \<or> \<not> htif_in_valid s)
        then recv_ret c else htif_in_valid s)"
    "htif_in_bits ?p =
       (if Top_io_host_clk_edge c \<and> (Top_io_host_in_ready c \<or> \<not> htif_in_valid s)
        then recv_buf c else htif_in_bits s)"
    "Top_io_host_in_valid ?p =
       (if Top_io_host_clk_edge c then htif_in_valid ?p else Top_io_host_in_valid s)"
    "Top_io_host_in_bits ?p =
       (if Top_io_host_clk_edge c then htif_in_bits ?p else Top_io_host_in_bits s)"
    "Top_io_host_out_ready ?p = (Top_io_host_clk_edge c \<or> Top_io_host_out_ready s)"
    by (auto simp: diag_print_def host_exchange_fields mem_tick_def eval_clock_lo_def mem_drive_def)
  have e: "events ?p = events s
       @ map MmDrive [0..<N_MEM_CHANNELS cfg]
       @ ClockLo # (if clock_lo_throws c then [EvalError] else [])
       @ map MmTick [0..<N_MEM_CHANNELS cfg]
       @ (if Top_io_host_clk_edge c then
            (if Top_io_host_in_ready c \<or> \<not> htif_in_valid s then [HtifRecv] else [])
            @ (if Top_io_host_out_valid c then [HtifSend (Top_io_host_out_bits c)] else [])
          else [])
       @ (if log cfg \<and> start cfg \<le> trace_count s then [Print] else [])"
    by (simp add: diag_print_def host_exchange_fields mem_tick_def eval_clock_lo_def mem_drive_def)
  from assms obtain s1 where o: "observe c ?p = Inr s1" and s': "s' = clock_hi (trace_dump cfg s1)"
    by (auto simp: loop_body_def split: sum.splits)
  from o obtain hs hp t' where tc: "tracker_cycle (tracker s) (getInst c) = Inr ((hs, hp), t')"
    and s1: "s1 = ?p\<lparr>trace_count := (if hs then 0 else trace_count s),
                 tracker := t',
                 events := events ?p @ (if hs then [ResetMsg] else [])
                   @ (if hp then [CycleCountMsg (printf_d (if hs then 0 else trace_count s))] else [])\<rparr>"
    by (auto simp: observe_tracker_cycle p split: sum.splits)
  show thesis
  proof (rule that [OF tc])
    show "events s' = events s
       @ map MmDrive [0..<N_MEM_CHANNELS cfg]
       @ ClockLo # (if clock_lo_throws c then [EvalError] else [])
       @ map MmTick [0..<N_MEM_CHANNELS cfg]
       @ (if Top_io_host_clk_edge c then
            (if Top_io_host_in_ready c \<or> \<not> htif_in_valid s then [HtifRecv] else [])
            @ (if Top_io_host_out_valid c then [HtifSend (Top_io_host_out_bits c)] else [])
          else [])
       @ (if log cfg \<and> start cfg \<le> trace_count s then [Print] else [])
       @ (if hs then [ResetMsg] else [])
       @ (if hp then [CycleCountMsg (printf_d (if hs then 0 else trace_count s))] else [])
       @ (if trace_due cfg (if hs then 0 else trace_count s)
          then [Dump (if hs then 0 else trace_count s)] else [])
       @ [ClockHi]"
      unfolding s' s1 by (simp add: clock_hi_def trace_dump_def e)
  qed (auto simp: s' s1 clock_hi_def trace_dump_def p h)
qed

lemma loop_body_Inl:
  "loop_body cfg s c = Inl e \<longleftrightarrow> tracker_cycle (tracker s) (getInst c) = Inl e"
  by (auto simp: loop_body_def observe_tracker_cycle diag_print_def host_exchange_fields
      mem_tick_def eval_clock_lo_def mem_drive_def split: sum.splits)

lemma loop_body_new_events:
  assumes "loop_body cfg s c = Inr s'"
  shows "events s' = events s @ new_events s s'"
  using assms by (elim loop_body_result) (simp add: new_events_def)

subsection \<open>Runs of the loop\<close>

lemma word_less_Suc_neq0: "(x :: 'a :: len word) < y \<Longrightarrow> x + 1 \<noteq> 0"
proof
  assume a: "x < y" and "x + 1 = 0"
  then have "x = -1" by (simp add: eq_neg_iff_add_eq_0)
  with a show False by simp
qed

lemma window_inv_init: "window_inv (init_state budget b0)"
  by (simp add: window_inv_def init_state_def MagicTracker_new_def)

lemma window_inv_step:
  assumes inv: "window_inv s" and cond: "loop_cond s c" and body: "loop_body cfg s c = Inr s'"
  shows "window_inv s' \<and> trace_count s' \<noteq> trace_count s"
  using body
proof (rule loop_body_result)
  fix hs hp t'
  assume tcy: "tracker_cycle (tracker s) (getInst c) = Inr ((hs, hp), t')"
    and tr: "tracker s' = t'"
    and tc: "trace_count s' = (if hs then 0 else trace_count s) + 1"
  from tcy obtain t1 where n: "nextInst (tracker s) (getInst c) = Inr t1"
    and hs: "hs = needs_reset t1"
    and t': "t' = t1\<lparr>needs_reset := False, needs_emit_cycle_count := False\<rparr>"
    by (auto simp: tracker_cycle_Inr)
  from inv have nr: "\<not> needs_reset (tracker s)" and len: "length (insts (tracker s)) \<le> MAGIC_LEN"
    by (simp_all add: window_inv_def)
  note st = nextInst_start [OF n nr len]
  from cond have lt: "trace_count s < max_cycles s" by (simp add: loop_cond_def)
  show ?thesis
  proof (cases hs)
    case True
    with st hs have w: "insts t1 = [MAGIC_START0, MAGIC_START1, MAGIC_START2, MAGIC_START3]"
      and l3: "3 \<le> length (insts (tracker s))"
      and ne: "insts (tracker s) \<noteq> [MAGIC_START0, MAGIC_START1, MAGIC_START2, MAGIC_START3]"
      by simp_all
    from inv l3 ne have "trace_count s \<noteq> 1" by (auto simp: window_inv_def)
    with True w show ?thesis
      by (simp add: window_inv_def tr t' tc MAGIC_LEN_def)
  next
    case False
    have nz: "trace_count s + 1 \<noteq> 0" using lt by (rule word_less_Suc_neq0)
    have "trace_count s + 1 = 1 \<Longrightarrow> length (insts t1) = 1"
      using inv st by (simp add: window_inv_def)
    with False nz st show ?thesis
      by (simp add: window_inv_def tr t' tc)
  qed
qed

lemma iterate_invariant:
  assumes "iterate cfg s cs = Some s'" and "P s"
    and "\<And>s c s'. P s \<Longrightarrow> loop_cond s c \<Longrightarrow> loop_body cfg s c = Inr s' \<Longrightarrow> P s'"
  shows "P s'"
  using assms(1,2)
proof (induction cs arbitrary: s)
  case Nil
  then show ?case by simp
next
  case (Cons c cs)
  from Cons.prems(1) obtain s1 where "loop_cond s c" "loop_body cfg s c = Inr s1"
    "iterate cfg s1 cs = Some s'"
    by (auto split: if_splits sum.splits)
  with Cons.IH [of s1] Cons.prems(2) assms(3) show ?case by blast
qed

lemma main_loop_invariant:
  assumes "main_loop cfg s cs = Some (Inr s')" and "P s"
    and "\<And>s c s'. P s \<Longrightarrow> loop_cond s c \<Longrightarrow> loop_body cfg s c = Inr s' \<Longrightarrow> P s'"
  shows "P s'"
  using assms(1,2)
proof (induction cs arbitrary: s)
  case Nil
  then show ?case by simp
next
  case (Cons c cs)
  show ?case
  proof (cases "loop_cond s c")
    case True
    with Cons.prems(1) obtain s1 where "loop_body cfg s c = Inr s1"
      "main_loop cfg s1 cs = Some (Inr s')"
      by (auto split: sum.splits)
    with Cons.IH [of s1] Cons.prems(2) assms(3) True show ?thesis by blast
  next
    case False
    with Cons.prems show ?thesis by simp
  qed
qed

lemma iterate_window_inv:
  "iterate cfg (init_state budget b0) cs = Some s \<Longrightarrow> window_inv s"
  by (erule iterate_invariant [where P = window_inv]) (auto simp: window_inv_init window_inv_step)

lemma finish_events_EvalError:
  "EvalError \<in> set (events (finish cfg code s)) \<longleftrightarrow> EvalError \<in> set (events s)"
  by (simp add: finish_def Let_def)

lemma eval_error_ret:
  assumes "main_loop cfg (init_state budget b0) cs = Some (Inr s)"
  shows "(ret s = 0 \<and> EvalError \<notin> set (events s)) \<or> (ret s = 1 \<and> EvalError \<in> set (events s))"
  using assms
proof (rule main_loop_invariant)
  show "(ret (init_state budget b0) = 0 \<and> EvalError \<notin> set (events (init_state budget b0))) \<or>
        (ret (init_state budget b0) = 1 \<and> EvalError \<in> set (events (init_state budget b0)))"
    by (simp add: init_state_def)
next
  fix s c s'
  assume "(ret s = 0 \<and> EvalError \<notin> set (events s)) \<or> (ret s = 1 \<and> EvalError \<in> set (events s))"
    and "loop_cond s c" and b: "loop_body cfg s c = Inr s'"
  then have "ret s = 0" "EvalError \<notin> set (events s)" by (auto simp: loop_cond_def)
  with b show "(ret s' = 0 \<and> EvalError \<notin> set (events s')) \<or> (ret s' = 1 \<and> EvalError \<in> set (events s'))"
    by (elim loop_body_result) auto
qed

subsection \<open>The tracker over several cycles\<close>

lemma tracker_cycle_again:
  assumes "tracker_cycle t i = Inr (ev, t')"
  shows "tracker_cycle t' i = Inr ((False, False), t')"
proof -
  obtain hs hp where ev: "ev = (hs, hp)" by (cases ev)
  from assms obtain t1 where n: "nextInst t i = Inr t1"
    and t': "t' = t1\<lparr>needs_reset := False, needs_emit_cycle_count := False\<rparr>"
    unfolding ev tracker_cycle_Inr by blast
  from nextInst_back [OF n] have "insts t' \<noteq> []" "last (insts t') = ucast i"
    by (simp_all add: t')
  then have "nextInst t' i = Inr t'" by (rule nextInst_not_pushed)
  then show ?thesis by (simp add: tracker_cycle_def hitStart_def hitStop_def t')
qed

lemma tracker_cycles_idle:
  "tracker_cycle t i = Inr ((False, False), t) \<Longrightarrow>
   tracker_cycles t (replicate n i) = Inr (replicate n (False, False), t)"
  by (induction n) simp_all

lemma tracker_cycles_run:
  assumes "tracker_cycle t i = Inr (ev, t')"
  shows "tracker_cycles t (replicate (Suc n) i) = Inr (ev # replicate n (False, False), t')"
  using assms tracker_cycles_idle [OF tracker_cycle_again [OF assms], of n] by simp

lemma tracker_cycles_append:
  "tracker_cycles t (xs @ ys) =
     (case tracker_cycles t xs of
        Inl e \<Rightarrow> Inl e
      | Inr (evs, t') \<Rightarrow>
          (case tracker_cycles t' ys of
             Inl e \<Rightarrow> Inl e
           | Inr (evs', t'') \<Rightarrow> Inr (evs @ evs', t'')))"
  by (induction xs arbitrary: t) (auto split: sum.splits prod.splits)

lemma three_runs:
  "(x # replicate a x) @ (x # replicate b x) @ (x # replicate c x) @ ys
     = replicate (a + b + c + 3) x @ ys"
proof -
  have "a + b + c + 3 = Suc a + (Suc b + Suc c)" by simp
  then show ?thesis by (simp only: replicate_add replicate_Suc append_assoc)
qed

lemma runs_after_first:
  "replicate a x @ (x # replicate b x) @ (x # replicate c x) @ ys
     = replicate (a + b + c + 2) x @ ys"
proof -
  have "a + b + c + 2 = a + (Suc b + Suc c)" by simp
  then show ?thesis by (simp only: replicate_add replicate_Suc append_assoc)
qed

lemma tracker_cycles_Cons_Inr:
  "tracker_cycles t (i # is) = Inr (evs, t') \<longleftrightarrow>
     (\<exists>ev t1 evs1. tracker_cycle t i = Inr (ev, t1) \<and> tracker_cycles t1 is = Inr (evs1, t')
        \<and> evs = ev # evs1)"
  by (auto split: sum.splits prod.splits)

lemma tracker_cycles_length:
  "tracker_cycles t is = Inr (evs, t') \<Longrightarrow> length evs = length is"
  by (induction "is" arbitrary: t evs) (auto split: sum.splits prod.splits)

lemma tracker_cycles_repeat:
  "tracker_cycles t (replicate (Suc a) i @ rest) = Inr (evs, t') \<longleftrightarrow>
     (\<exists>ev t1 evs1. tracker_cycle t i = Inr (ev, t1) \<and> tracker_cycles t1 rest = Inr (evs1, t')
        \<and> evs = ev # replicate a (False, False) @ evs1)"
proof (cases "tracker_cycle t i")
  case (Inl e)
  then show ?thesis by simp
next
  case (Inr p)
  obtain ev t1 where p: "p = (ev, t1)" by (cases p)
  from Inr p have 1: "tracker_cycle t i = Inr (ev, t1)" by simp
  from tracker_cycles_run [OF 1, of a] 1 show ?thesis
    by (auto simp: tracker_cycles_append split: sum.splits)
qed

lemma tracker_cycles_repeat_last:
  "tracker_cycles t (replicate (Suc a) i) = Inr (evs, t') \<longleftrightarrow>
     (\<exists>ev. tracker_cycle t i = Inr (ev, t') \<and> evs = ev # replicate a (False, False))"
  using tracker_cycles_repeat [of t a i "[]" evs t'] by auto

lemma tracker_cycle_shape:
  assumes "tracker_cycle t i = Inr (ev, t1)" and "length (insts t) \<le> MAGIC_LEN"
  shows "\<exists>ys. length ys < MAGIC_LEN \<and> t1 = win (ys @ [ucast i])"
proof -
  obtain hs hp where ev: "ev = (hs, hp)" by (cases ev)
  from assms(1) obtain t2 where n: "nextInst t i = Inr t2"
    and t1: "t1 = t2\<lparr>needs_reset := False, needs_emit_cycle_count := False\<rparr>"
    unfolding ev tracker_cycle_Inr by blast
  from nextInst_back [OF n] have ne: "insts t2 \<noteq> []" and l: "last (insts t2) = ucast i" by simp_all
  have len: "length (insts t2) \<le> MAGIC_LEN"
    using n assms(2) cb_push_back_length [of "insts t" MAGIC_LEN "ucast i"]
    by (auto simp: nextInst_def Let_def split: if_splits sum.splits)
  from ne l have "insts t2 = butlast (insts t2) @ [ucast i]"
    by (metis append_butlast_last_id)
  moreover have "length (butlast (insts t2)) < MAGIC_LEN" using ne len by (cases "insts t2") auto
  moreover have "t1 = win (insts t2)" by (simp add: t1)
  ultimately show ?thesis by metis
qed

lemma start_first_iff:
  assumes "tracker_cycle t 0x04550513 = Inr (ev, t1)"
    and "\<not> needs_reset t" and "length (insts t) \<le> MAGIC_LEN"
  shows "fst ev \<longleftrightarrow>
     drop (length (insts t) - 3) (insts t) = [MAGIC_START0, MAGIC_START1, MAGIC_START2]"
  using assms(3)
proof (cases "insts t" rule: length_le4_cases)
  case 1
  with assms(1,2) show ?thesis
    by (cases t) (auto simp: tracker_defs split: if_splits bool.splits sum.splits)
next
  case (2 a)
  with assms(1,2) show ?thesis
    by (cases t) (auto simp: tracker_defs split: if_splits bool.splits sum.splits)
next
  case (3 a b)
  with assms(1,2) show ?thesis
    by (cases t) (auto simp: tracker_defs split: if_splits bool.splits sum.splits)
next
  case (4 a b c)
  with assms(1,2) show ?thesis
    by (cases t) (auto simp: tracker_defs split: if_splits bool.splits sum.splits)
next
  case (5 a b c d)
  with assms(1,2) show ?thesis
    by (cases t) (auto simp: tracker_defs split: if_splits bool.splits sum.splits)
qed

lemma short_cases:
  assumes "length ys < MAGIC_LEN"
  obtains "ys = []" | a where "ys = [a]" | a b where "ys = [a, b]" | a b c where "ys = [a, b, c]"
proof -
  from assms have "length ys \<le> MAGIC_LEN" by simp
  then show thesis
  proof (cases ys rule: length_le4_cases)
    case (5 a b c d)
    with assms show ?thesis by (simp add: MAGIC_LEN_def)
  qed (use that in auto)
qed

lemma start_tail:
  assumes "tracker_cycles (win (ys @ [0x04550513])) [0x04d50513, 0x04250513, 0x04550513] = Inr (evs, t')"
    and "length ys < MAGIC_LEN"
  shows "map fst evs = [False, False, True]
       \<and> t' = win [0x04550513, 0x04d50513, 0x04250513, 0x04550513]"
  using assms(2)
proof (cases ys rule: short_cases)
  case 1
  with assms(1) show ?thesis
    by (auto simp: tracker_defs split: if_splits bool.splits sum.splits)
next
  case (2 a)
  with assms(1) show ?thesis
    by (auto simp: tracker_defs split: if_splits bool.splits sum.splits)
next
  case (3 a b)
  with assms(1) show ?thesis
    by (auto simp: tracker_defs split: if_splits bool.splits sum.splits)
next
  case (4 a b c)
  with assms(1) show ?thesis
    by (auto simp: tracker_defs split: if_splits bool.splits sum.splits)
qed


lemma stop_first_any:
  assumes "tracker_cycle t 0x04350513 = Inr (ev, t1)"
    and "\<not> needs_emit_cycle_count t" and "length (insts t) \<le> MAGIC_LEN"
  shows "\<not> snd ev"
  using assms(3)
proof (cases "insts t" rule: length_le4_cases)
  case 1
  with assms(1,2) show ?thesis
    by (cases t) (auto simp: tracker_defs split: if_splits bool.splits sum.splits)
next
  case (2 a)
  with assms(1,2) show ?thesis
    by (cases t) (auto simp: tracker_defs split: if_splits bool.splits sum.splits)
next
  case (3 a b)
  with assms(1,2) show ?thesis
    by (cases t) (auto simp: tracker_defs split: if_splits bool.splits sum.splits)
next
  case (4 a b c)
  with assms(1,2) show ?thesis
    by (cases t) (auto simp: tracker_defs split: if_splits bool.splits sum.splits)
next
  case (5 a b c d)
  with assms(1,2) show ?thesis
    by (cases t) (auto simp: tracker_defs split: if_splits bool.splits sum.splits)
qed

lemma stop_tail:
  assumes "tracker_cycles (win (ys @ [0x04350513])) [0x04f50513, 0x05350513, 0x04d50513] = Inr (evs, t')"
    and "length ys < MAGIC_LEN"
  shows "map snd evs = [False, False, True]
       \<and> t' = win [0x04350513, 0x04f50513, 0x05350513, 0x04d50513]"
  using assms(2)
proof (cases ys rule: short_cases)
  case 1
  with assms(1) show ?thesis
    by (auto simp: tracker_defs split: if_splits bool.splits sum.splits)
next
  case (2 a)
  with assms(1) show ?thesis
    by (auto simp: tracker_defs split: if_splits bool.splits sum.splits)
next
  case (3 a b)
  with assms(1) show ?thesis
    by (auto simp: tracker_defs split: if_splits bool.splits sum.splits)
next
  case (4 a b c)
  with assms(1) show ?thesis
    by (auto simp: tracker_defs split: if_splits bool.splits sum.splits)
qed

lemma four_runs:
  assumes "tracker_cycles t (replicate (Suc a) i0 @ replicate (Suc b) i1
              @ replicate (Suc c) i2 @ replicate (Suc d) i3) = Inr (evs, t')"
  obtains e0 e1 e2 e3 t1 where
    "tracker_cycle t i0 = Inr (e0, t1)"
    "tracker_cycles t1 [i1, i2, i3] = Inr ([e1, e2, e3], t')"
    "evs = (e0 # replicate a (False, False)) @ (e1 # replicate b (False, False))
          @ (e2 # replicate c (False, False)) @ e3 # replicate d (False, False)"
proof -
  from assms obtain e0 t1 evs1 where 0: "tracker_cycle t i0 = Inr (e0, t1)"
    and r1: "tracker_cycles t1 (replicate (Suc b) i1 @ replicate (Suc c) i2
              @ replicate (Suc d) i3) = Inr (evs1, t')"
    and v0: "evs = e0 # replicate a (False, False) @ evs1"
    unfolding tracker_cycles_repeat by blast
  from r1 obtain e1 t2 evs2 where 1: "tracker_cycle t1 i1 = Inr (e1, t2)"
    and r2: "tracker_cycles t2 (replicate (Suc c) i2 @ replicate (Suc d) i3) = Inr (evs2, t')"
    and v1: "evs1 = e1 # replicate b (False, False) @ evs2"
    unfolding tracker_cycles_repeat by blast
  from r2 obtain e2 t3 evs3 where 2: "tracker_cycle t2 i2 = Inr (e2, t3)"
    and r3: "tracker_cycles t3 (replicate (Suc d) i3) = Inr (evs3, t')"
    and v2: "evs2 = e2 # replicate c (False, False) @ evs3"
    unfolding tracker_cycles_repeat by blast
  from r3 obtain e3 where 3: "tracker_cycle t3 i3 = Inr (e3, t')"
    and v3: "evs3 = e3 # replicate d (False, False)"
    unfolding tracker_cycles_repeat_last by blast
  from 1 2 3 have "tracker_cycles t1 [i1, i2, i3] = Inr ([e1, e2, e3], t')" by simp
  moreover have "evs = (e0 # replicate a (False, False)) @ (e1 # replicate b (False, False))
          @ (e2 # replicate c (False, False)) @ e3 # replicate d (False, False)"
    using v0 v1 v2 v3 by simp
  ultimately show thesis using 0 that by blast
qed

lemma start_sequence_any:
  assumes run: "tracker_cycles t (replicate (Suc a) 0x04550513 @ replicate (Suc b) 0x04d50513
            @ replicate (Suc c) 0x04250513 @ replicate (Suc d) 0x04550513) = Inr (evs, t')"
    and clear: "\<not> needs_reset t" and len: "length (insts t) \<le> MAGIC_LEN"
  shows "\<exists>e rest. evs = e # rest
       \<and> (fst e \<longleftrightarrow> drop (length (insts t) - 3) (insts t)
                        = [MAGIC_START0, MAGIC_START1, MAGIC_START2])
       \<and> map fst rest = replicate (a + b + c + 2) False @ True # replicate d False
       \<and> t' = win [0x04550513, 0x04d50513, 0x04250513, 0x04550513]"
  using run
proof (rule four_runs)
  fix e0 e1 e2 e3 t1
  assume 0: "tracker_cycle t 0x04550513 = Inr (e0, t1)"
    and r: "tracker_cycles t1 [0x04d50513, 0x04250513, 0x04550513] = Inr ([e1, e2, e3], t')"
    and v: "evs = (e0 # replicate a (False, False)) @ (e1 # replicate b (False, False))
          @ (e2 # replicate c (False, False)) @ e3 # replicate d (False, False)"
  note f0 = start_first_iff [OF 0 clear len]
  from tracker_cycle_shape [OF 0 len] obtain ys where
    ys: "length ys < MAGIC_LEN" and t1: "t1 = win (ys @ [0x04550513])" by auto
  from start_tail [OF r [unfolded t1] ys]
  have f: "fst e1 = False" "fst e2 = False" "fst e3 = True"
    and t': "t' = win [0x04550513, 0x04d50513, 0x04250513, 0x04550513]" by simp_all
  let ?rest = "replicate a (False, False) @ (e1 # replicate b (False, False))
          @ (e2 # replicate c (False, False)) @ e3 # replicate d (False, False)"
  have "map fst ?rest = replicate a False @ (False # replicate b False)
      @ (False # replicate c False) @ True # replicate d False"
    by (simp add: f)
  then have m: "map fst ?rest = replicate (a + b + c + 2) False @ True # replicate d False"
    by (simp only: runs_after_first)
  have "evs = e0 # ?rest" unfolding v by simp
  with f0 m t' show ?thesis by blast
qed

lemma stop_sequence_any:
  assumes run: "tracker_cycles t (replicate (Suc a) 0x04350513 @ replicate (Suc b) 0x04f50513
            @ replicate (Suc c) 0x05350513 @ replicate (Suc d) 0x04d50513) = Inr (evs, t')"
    and clear: "\<not> needs_emit_cycle_count t" and len: "length (insts t) \<le> MAGIC_LEN"
  shows "map snd evs = replicate (a + b + c + 3) False @ True # replicate d False
       \<and> t' = win [0x04350513, 0x04f50513, 0x05350513, 0x04d50513]"
  using run
proof (rule four_runs)
  fix e0 e1 e2 e3 t1
  assume 0: "tracker_cycle t 0x04350513 = Inr (e0, t1)"
    and r: "tracker_cycles t1 [0x04f50513, 0x05350513, 0x04d50513] = Inr ([e1, e2, e3], t')"
    and v: "evs = (e0 # replicate a (False, False)) @ (e1 # replicate b (False, False))
          @ (e2 # replicate c (False, False)) @ e3 # replicate d (False, False)"
  from stop_first_any [OF 0 clear len] have f0: "snd e0 = False" by simp
  from tracker_cycle_shape [OF 0 len] obtain ys where
    ys: "length ys < MAGIC_LEN" and t1: "t1 = win (ys @ [0x04350513])" by auto
  from stop_tail [OF r [unfolded t1] ys]
  have f: "snd e1 = False" "snd e2 = False" "snd e3 = True"
    and t': "t' = win [0x04350513, 0x04f50513, 0x05350513, 0x04d50513]" by simp_all
  have "map snd evs = (False # replicate a False) @ (False # replicate b False)
      @ (False # replicate c False) @ True # replicate d False"
    unfolding v by (simp add: f0 f)
  with t' show ?thesis by (simp only: three_runs)
qed

lemma stop_first_no_start:
  assumes "tracker_cycle t 0x04350513 = Inr (ev, t1)"
    and "\<not> needs_reset t" and "length (insts t) \<le> MAGIC_LEN"
  shows "\<not> fst ev"
  using assms(3)
proof (cases "insts t" rule: length_le4_cases)
  case 1
  with assms(1,2) show ?thesis
    by (cases t) (auto simp: tracker_defs split: if_splits bool.splits sum.splits)
next
  case (2 a)
  with assms(1,2) show ?thesis
    by (cases t) (auto simp: tracker_defs split: if_splits bool.splits sum.splits)
next
  case (3 a b)
  with assms(1,2) show ?thesis
    by (cases t) (auto simp: tracker_defs split: if_splits bool.splits sum.splits)
next
  case (4 a b c)
  with assms(1,2) show ?thesis
    by (cases t) (auto simp: tracker_defs split: if_splits bool.splits sum.splits)
next
  case (5 a b c d)
  with assms(1,2) show ?thesis
    by (cases t) (auto simp: tracker_defs split: if_splits bool.splits sum.splits)
qed

lemma stop_tail_no_start:
  assumes "tracker_cycles (win (ys @ [0x04350513])) [0x04f50513, 0x05350513, 0x04d50513] = Inr (evs, t')"
    and "length ys < MAGIC_LEN"
  shows "map fst evs = [False, False, False]"
  using assms(2)
proof (cases ys rule: short_cases)
  case 1
  with assms(1) show ?thesis
    by (auto simp: tracker_defs split: if_splits bool.splits sum.splits)
next
  case (2 a)
  with assms(1) show ?thesis
    by (auto simp: tracker_defs split: if_splits bool.splits sum.splits)
next
  case (3 a b)
  with assms(1) show ?thesis
    by (auto simp: tracker_defs split: if_splits bool.splits sum.splits)
next
  case (4 a b c)
  with assms(1) show ?thesis
    by (auto simp: tracker_defs split: if_splits bool.splits sum.splits)
qed

lemma stop_sequence_no_start:
  assumes run: "tracker_cycles t (replicate (Suc a) 0x04350513 @ replicate (Suc b) 0x04f50513
            @ replicate (Suc c) 0x05350513 @ replicate (Suc d) 0x04d50513) = Inr (evs, t')"
    and clear: "\<not> needs_reset t" and len: "length (insts t) \<le> MAGIC_LEN"
  shows "map fst evs = replicate (length evs) False"
  using run
proof (rule four_runs)
  fix e0 e1 e2 e3 t1
  assume 0: "tracker_cycle t 0x04350513 = Inr (e0, t1)"
    and r: "tracker_cycles t1 [0x04f50513, 0x05350513, 0x04d50513] = Inr ([e1, e2, e3], t')"
    and v: "evs = (e0 # replicate a (False, False)) @ (e1 # replicate b (False, False))
          @ (e2 # replicate c (False, False)) @ e3 # replicate d (False, False)"
  from stop_first_no_start [OF 0 clear len] have f0: "fst e0 = False" by simp
  from tracker_cycle_shape [OF 0 len] obtain ys where
    ys: "length ys < MAGIC_LEN" and t1: "t1 = win (ys @ [0x04350513])" by auto
  from stop_tail_no_start [OF r [unfolded t1] ys]
  have f: "fst e1 = False" "fst e2 = False" "fst e3 = False" by simp_all
  have "\<forall>x\<in>set (map fst evs). x = False" unfolding v by (auto simp: f0 f)
  then have "map fst evs = replicate (length (map fst evs)) False"
    by (simp only: replicate_length_same)
  then show ?thesis by simp
qed

lemma start_stop_exclusive:
  assumes "tracker_cycle t i = Inr ((hs, hp), t')"
    and "\<not> needs_reset t" and "\<not> needs_emit_cycle_count t"
    and "length (insts t) \<le> MAGIC_LEN"
  shows "\<not> (hs \<and> hp)"
  using assms(4)
proof (cases "insts t" rule: length_le4_cases)
  case 1
  with assms(1,2,3) show ?thesis
    by (cases t) (auto simp: tracker_defs split: if_splits bool.splits sum.splits)
next
  case (2 a)
  with assms(1,2,3) show ?thesis
    by (cases t) (auto simp: tracker_defs split: if_splits bool.splits sum.splits)
next
  case (3 a b)
  with assms(1,2,3) show ?thesis
    by (cases t) (auto simp: tracker_defs split: if_splits bool.splits sum.splits)
next
  case (4 a b c)
  with assms(1,2,3) show ?thesis
    by (cases t) (auto simp: tracker_defs split: if_splits bool.splits sum.splits)
next
  case (5 a b c d)
  with assms(1,2,3) show ?thesis
    by (cases t) (auto simp: tracker_defs split: if_splits bool.splits sum.splits)
qed

lemma tracker_cycle_in_range:
  assumes "reads_in_range t" and "length (insts t) \<le> MAGIC_LEN"
  shows "\<exists>ev t'. tracker_cycle t i = Inr (ev, t') \<and> reads_in_range t'
     \<and> length (insts t') \<le> MAGIC_LEN"
  using assms(2)
proof (cases "insts t" rule: length_le4_cases)
  case 1
  with assms(1) show ?thesis by (simp add: reads_in_range_def MAGIC_LEN_def)
next
  case (2 a)
  with assms(1) show ?thesis
    by (auto simp: reads_in_range_def tracker_defs split: bool.splits)
next
  case (3 a b)
  with assms(1) show ?thesis
    by (auto simp: reads_in_range_def tracker_defs split: bool.splits)
next
  case (4 a b c)
  with assms(1) show ?thesis
    by (auto simp: reads_in_range_def tracker_defs split: bool.splits)
next
  case (5 a b c d)
  with assms(1) show ?thesis
    by (auto simp: reads_in_range_def tracker_defs split: bool.splits)
qed

lemma tracker_cycles_in_range:
  "reads_in_range t \<Longrightarrow> length (insts t) \<le> MAGIC_LEN \<Longrightarrow>
   \<exists>evs t'. tracker_cycles t is = Inr (evs, t')"
proof (induction "is" arbitrary: t)
  case Nil
  then show ?case by simp
next
  case (Cons i "is")
  from tracker_cycle_in_range [OF Cons.prems, of i] obtain ev t1 where
    1: "tracker_cycle t i = Inr (ev, t1)" and 2: "reads_in_range t1"
    and 3: "length (insts t1) \<le> MAGIC_LEN" by blast
  from Cons.IH [OF 2 3] obtain evs t' where "tracker_cycles t1 is = Inr (evs, t')" by blast
  with 1 show ?case by simp
qed

lemma first_cycle_in_range:
  assumes "tracker_cycle t i = Inr (ev, t')" and "insts t = []"
  shows "reads_in_range t'"
  using assms by (cases t) (auto simp: reads_in_range_def tracker_defs split: if_splits bool.splits sum.splits)

subsection \<open>The loop and the tracker\<close>

lemma counter_after_append:
  "counter_after n (xs @ ys) = counter_after (counter_after n xs) ys"
  by (induction xs arbitrary: n) simp_all

lemma counter_after_idle: "counter_after n (replicate k False) = n + of_nat k"
  by (induction k arbitrary: n) simp_all

lemma new_events_self [simp]: "new_events s s = []"
  by (simp add: new_events_def)

lemma new_events_eqI: "events s' = events s @ xs \<Longrightarrow> new_events s s' = xs"
  by (simp add: new_events_def)

lemma iterate_events:
  "iterate cfg s cs = Some s' \<Longrightarrow> events s' = events s @ new_events s s'"
proof (induction cs arbitrary: s)
  case Nil
  then show ?case by simp
next
  case (Cons c cs)
  from Cons.prems obtain s1 where b: "loop_body cfg s c = Inr s1"
    and r: "iterate cfg s1 cs = Some s'"
    by (auto split: if_splits sum.splits)
  from loop_body_new_events [OF b] Cons.IH [OF r]
  have e: "events s' = events s @ (new_events s s1 @ new_events s1 s')" by simp
  from new_events_eqI [OF e] e show ?case by simp
qed

lemma new_events_trans:
  "events s1 = events s @ new_events s s1 \<Longrightarrow> events s2 = events s1 @ new_events s1 s2 \<Longrightarrow>
   new_events s s2 = new_events s s1 @ new_events s1 s2"
  by (rule new_events_eqI) simp

lemma iterate_Cons:
  "iterate cfg s (c # cs) = Some s' \<longleftrightarrow>
     loop_cond s c \<and> (\<exists>s1. loop_body cfg s c = Inr s1 \<and> iterate cfg s1 cs = Some s')"
  by (auto split: sum.splits)

lemma iterate_append:
  "iterate cfg s (xs @ ys) = (case iterate cfg s xs of None \<Rightarrow> None | Some s1 \<Rightarrow> iterate cfg s1 ys)"
  by (induction xs arbitrary: s) (auto split: sum.splits)

lemma main_loop_iterate:
  "iterate cfg s cs = Some s' \<Longrightarrow> main_loop cfg s (cs @ rest) = main_loop cfg s' rest"
  by (induction cs arbitrary: s) (auto split: sum.splits if_splits)

lemma loop_body_tracker:
  assumes "loop_body cfg s c = Inr s'"
  shows "\<exists>hs hp. tracker_cycle (tracker s) (getInst c) = Inr ((hs, hp), tracker s')
     \<and> trace_count s' = (if hs then 0 else trace_count s) + 1
     \<and> length (filter ((=) ResetMsg) (new_events s s')) = (if hs then 1 else 0)
     \<and> length (filter is_report (new_events s s')) = (if hp then 1 else 0)
     \<and> length (filter ((=) ClockHi) (new_events s s')) = 1"
  using assms
  by (rule loop_body_result) (auto simp: new_events_def is_report_def filter_empty_conv)

lemma iterate_tracker:
  assumes "iterate cfg s cs = Some s'"
  shows "\<exists>evs. tracker_cycles (tracker s) (map getInst cs) = Inr (evs, tracker s')
     \<and> trace_count s' = counter_after (trace_count s) (map fst evs)
     \<and> length (filter ((=) ResetMsg) (new_events s s')) = length (filter fst evs)
     \<and> length (filter is_report (new_events s s')) = length (filter snd evs)
     \<and> length (filter ((=) ClockHi) (new_events s s')) = length cs"
  using assms
proof (induction cs arbitrary: s)
  case Nil
  then show ?case by simp
next
  case (Cons c cs)
  from Cons.prems obtain s1 where b: "loop_body cfg s c = Inr s1"
    and r: "iterate cfg s1 cs = Some s'"
    by (auto split: if_splits sum.splits)
  from loop_body_tracker [OF b] obtain hs hp where
    1: "tracker_cycle (tracker s) (getInst c) = Inr ((hs, hp), tracker s1)"
    "trace_count s1 = (if hs then 0 else trace_count s) + 1"
    "length (filter ((=) ResetMsg) (new_events s s1)) = (if hs then 1 else 0)"
    "length (filter is_report (new_events s s1)) = (if hp then 1 else 0)"
    "length (filter ((=) ClockHi) (new_events s s1)) = 1"
    by blast
  from Cons.IH [OF r] obtain evs where
    2: "tracker_cycles (tracker s1) (map getInst cs) = Inr (evs, tracker s')"
    "trace_count s' = counter_after (trace_count s1) (map fst evs)"
    "length (filter ((=) ResetMsg) (new_events s1 s')) = length (filter fst evs)"
    "length (filter is_report (new_events s1 s')) = length (filter snd evs)"
    "length (filter ((=) ClockHi) (new_events s1 s')) = length cs"
    by blast
  have n: "new_events s s' = new_events s s1 @ new_events s1 s'"
    using loop_body_new_events [OF b] iterate_events [OF r] by (rule new_events_trans)
  show ?case
    apply (rule exI [of _ "(hs, hp) # evs"])
    using 1 2 apply (simp add: n)
    done
qed

lemma reports_of_append:
  "reports_of n (xs @ ys) = reports_of n xs @ reports_of (counter_after n (map fst xs)) ys"
  by (induction n xs rule: reports_of.induct) simp_all

lemma reports_of_idle: "reports_of n (replicate k (False, False)) = []"
  by (induction k arbitrary: n) simp_all

lemma loop_body_reports:
  assumes "loop_body cfg s c = Inr s'"
  shows "\<exists>hs hp. tracker_cycle (tracker s) (getInst c) = Inr ((hs, hp), tracker s')
     \<and> trace_count s' = (if hs then 0 else trace_count s) + 1
     \<and> filter is_report (new_events s s')
        = (if hp then [CycleCountMsg (printf_d (if hs then 0 else trace_count s))] else [])"
  using assms
  by (rule loop_body_result) (auto simp: new_events_def is_report_def filter_empty_conv)

lemma iterate_reports:
  assumes "iterate cfg s cs = Some s'"
  shows "\<exists>evs. tracker_cycles (tracker s) (map getInst cs) = Inr (evs, tracker s')
     \<and> filter is_report (new_events s s') = reports_of (trace_count s) evs"
  using assms
proof (induction cs arbitrary: s)
  case Nil
  then show ?case by simp
next
  case (Cons c cs)
  from Cons.prems obtain s1 where b: "loop_body cfg s c = Inr s1"
    and r: "iterate cfg s1 cs = Some s'"
    by (auto split: if_splits sum.splits)
  from loop_body_reports [OF b] obtain hs hp where
    1: "tracker_cycle (tracker s) (getInst c) = Inr ((hs, hp), tracker s1)"
    "trace_count s1 = (if hs then 0 else trace_count s) + 1"
    "filter is_report (new_events s s1)
        = (if hp then [CycleCountMsg (printf_d (if hs then 0 else trace_count s))] else [])"
    by blast
  from Cons.IH [OF r] obtain evs where
    2: "tracker_cycles (tracker s1) (map getInst cs) = Inr (evs, tracker s')"
    "filter is_report (new_events s1 s') = reports_of (trace_count s1) evs"
    by blast
  have n: "new_events s s' = new_events s s1 @ new_events s1 s'"
    using loop_body_new_events [OF b] iterate_events [OF r] by (rule new_events_trans)
  show ?case
    apply (rule exI [of _ "(hs, hp) # evs"])
    using 1 2 apply (simp add: n)
    done
qed

lemma reports_of_single:
  assumes f: "map fst evs = replicate (length evs) False"
    and p: "map snd evs = replicate m False @ True # replicate d False"
  shows "reports_of n evs = [CycleCountMsg (printf_d (n + of_nat m))]"
proof -
  from p have l: "length evs = m + Suc d"
    by (metis length_map length_append length_replicate length_Cons)
  have "evs = zip (map fst evs) (map snd evs)" by (simp add: zip_map_fst_snd)
  also have "\<dots> = zip (replicate m False @ False # replicate d False)
                       (replicate m False @ True # replicate d False)"
    unfolding f p l by (simp only: replicate_add replicate_Suc)
  also have "\<dots> = zip (replicate m False) (replicate m False)
                       @ zip (False # replicate d False) (True # replicate d False)"
    by (rule zip_append) simp
  also have "\<dots> = replicate m (False, False) @ (False, True) # replicate d (False, False)"
    by (simp only: zip_replicate zip_Cons_Cons min.idem)
  finally have "evs = replicate m (False, False) @ (False, True) # replicate d (False, False)" .
  then show ?thesis
    by (simp add: reports_of_append reports_of_idle counter_after_idle)
qed

lemma range_step:
  assumes inv: "insts (tracker s) = [] \<or> reads_in_range (tracker s)"
    and len: "length (insts (tracker s)) \<le> MAGIC_LEN"
    and body: "loop_body cfg s c = Inr s'"
  shows "reads_in_range (tracker s')"
proof -
  from loop_body_tracker [OF body] obtain hs hp where
    1: "tracker_cycle (tracker s) (getInst c) = Inr ((hs, hp), tracker s')" by blast
  show ?thesis
  proof (cases "insts (tracker s) = []")
    case True
    with 1 show ?thesis by (rule first_cycle_in_range)
  next
    case False
    with inv have "reads_in_range (tracker s)" by simp
    from tracker_cycle_in_range [OF this len, of "getInst c"] 1 show ?thesis by auto
  qed
qed

lemma iterate_reads_in_range:
  assumes "iterate cfg (init_state budget b0) cs = Some s"
  shows "insts (tracker s) = [] \<or> reads_in_range (tracker s)"
proof -
  let ?P = "\<lambda>s. window_inv s \<and> (insts (tracker s) = [] \<or> reads_in_range (tracker s))"
  have "?P s"
    using assms
  proof (rule iterate_invariant [where P = ?P])
    show "?P (init_state budget b0)"
      using window_inv_init [of budget b0] by (simp add: init_state_def MagicTracker_new_def)
  next
    fix s c s'
    assume p: "?P s" and c: "loop_cond s c" and b: "loop_body cfg s c = Inr s'"
    from p have len: "length (insts (tracker s)) \<le> MAGIC_LEN" by (simp add: window_inv_def)
    from window_inv_step [of s c cfg s'] p c b have "window_inv s'" by simp
    moreover from p len b have "reads_in_range (tracker s')" by (intro range_step) simp_all
    ultimately show "?P s'" by simp
  qed
  then show ?thesis by simp
qed

lemma reset_and_report_exclusive:
  assumes inv: "window_inv s" and body: "loop_body cfg s c = Inr s1"
    and reset: "ResetMsg \<in> set (new_events s s1)"
  shows "filter is_report (new_events s s1) = []"
proof -
  from loop_body_tracker [OF body] obtain hs hp where
    1: "tracker_cycle (tracker s) (getInst c) = Inr ((hs, hp), tracker s1)"
    and 2: "length (filter ((=) ResetMsg) (new_events s s1)) = (if hs then 1 else 0)"
    and 3: "length (filter is_report (new_events s s1)) = (if hp then 1 else 0)"
    by blast
  from reset have "filter ((=) ResetMsg) (new_events s s1) \<noteq> []"
    by (simp add: filter_empty_conv)
  with 2 have hs by (auto split: if_splits)
  moreover from inv have "\<not> needs_reset (tracker s)" "\<not> needs_emit_cycle_count (tracker s)"
    "length (insts (tracker s)) \<le> MAGIC_LEN"
    by (simp_all add: window_inv_def)
  note start_stop_exclusive [OF 1 this]
  ultimately have "\<not> hp" by simp
  with 3 show ?thesis by simp
qed

lemma filter_eq_replicate: "filter ((=) x) xs = replicate (length (filter ((=) x) xs)) x"
  by (induction xs) auto

lemma loop_body_quiet:
  assumes "tracker_cycle (tracker s) (getInst c) = Inr (ev, t1)" and "\<not> clock_lo_throws c"
  shows "\<exists>s1. loop_body cfg s c = Inr s1 \<and> max_cycles s1 = max_cycles s \<and> ret s1 = ret s"
proof (cases "loop_body cfg s c")
  case (Inl e)
  with assms(1) show ?thesis by (simp add: loop_body_Inl)
next
  case (Inr s1)
  then have "max_cycles s1 = max_cycles s \<and> ret s1 = ret s"
    by (rule loop_body_result) (simp add: assms(2))
  with Inr show ?thesis by simp
qed

lemma iterate_exists:
  assumes "tracker_cycles (tracker s) (map getInst cs) = Inr (evs, t')"
    and "\<forall>c\<in>set cs. \<not> htif_done c \<and> \<not> clock_lo_throws c"
    and "ret s = 0"
    and "\<forall>j<length cs. counter_after (trace_count s) (take j (map fst evs)) < max_cycles s"
  shows "\<exists>s'. iterate cfg s cs = Some s' \<and> max_cycles s' = max_cycles s \<and> ret s' = 0"
  using assms
proof (induction cs arbitrary: s evs)
  case Nil
  then show ?case by simp
next
  case (Cons c cs)
  from Cons.prems(1) obtain ev t1 evs1 where
    t1: "tracker_cycle (tracker s) (getInst c) = Inr (ev, t1)"
    and ts: "tracker_cycles t1 (map getInst cs) = Inr (evs1, t')"
    and evs: "evs = ev # evs1"
    unfolding list.map tracker_cycles_Cons_Inr by blast
  from Cons.prems(2) have q: "\<not> htif_done c" "\<not> clock_lo_throws c" by simp_all
  from Cons.prems(2) have q': "\<forall>c\<in>set cs. \<not> htif_done c \<and> \<not> clock_lo_throws c" by simp
  have "0 < length (c # cs)" by simp
  from Cons.prems(4) [rule_format, OF this] have lt: "trace_count s < max_cycles s" by simp
  from q lt Cons.prems(3) have cond: "loop_cond s c" by (simp add: loop_cond_def)
  from loop_body_quiet [OF t1 q(2)] obtain s1 where
    b: "loop_body cfg s c = Inr s1" and m: "max_cycles s1 = max_cycles s" and r: "ret s1 = ret s"
    by blast
  from loop_body_tracker [OF b] obtain hs hp where
    "tracker_cycle (tracker s) (getInst c) = Inr ((hs, hp), tracker s1)"
    "trace_count s1 = (if hs then 0 else trace_count s) + 1" by blast
  with t1 have tr: "tracker s1 = t1"
    and tc: "trace_count s1 = (if fst ev then 0 else trace_count s) + 1"
    by auto
  have bound: "\<forall>j<length cs. counter_after (trace_count s1) (take j (map fst evs1)) < max_cycles s1"
  proof (intro allI impI)
    fix j assume "j < length cs"
    then have "Suc j < length (c # cs)" by simp
    from Cons.prems(4) [rule_format, OF this]
    show "counter_after (trace_count s1) (take j (map fst evs1)) < max_cycles s1"
      by (simp add: evs tc m)
  qed
  have ts': "tracker_cycles (tracker s1) (map getInst cs) = Inr (evs1, t')"
    using ts tr by simp
  have r0: "ret s1 = 0" using r Cons.prems(3) by simp
  from Cons.IH [OF ts' q' r0 bound]
  obtain s' where "iterate cfg s1 cs = Some s'" "max_cycles s' = max_cycles s1" "ret s' = 0"
    by blast
  with cond b m show ?case by simp
qed

lemma counter_after_le: "unat (counter_after n bs) \<le> unat n + length bs"
proof (induction bs arbitrary: n)
  case Nil
  then show ?case by simp
next
  case (Cons b bs)
  have "unat ((if b then 0 else n) + 1) \<le> unat n + 1"
    by (simp add: unat_word_ariths)
  with Cons [of "(if b then 0 else n) + 1"] show ?case by simp
qed

lemma feed_runs:
  assumes reach: "iterate cfg (init_state budget b0) cs0 = Some s"
    and ne: "insts (tracker s) \<noteq> []"
    and ret: "ret s = 0"
    and quiet: "\<forall>c\<in>set cs. \<not> htif_done c \<and> \<not> clock_lo_throws c"
    and room: "unat (trace_count s) + length cs \<le> unat (max_cycles s)"
  shows "\<exists>s'. iterate cfg s cs = Some s'"
proof -
  from iterate_window_inv [OF reach] have len: "length (insts (tracker s)) \<le> MAGIC_LEN"
    by (simp add: window_inv_def)
  from iterate_reads_in_range [OF reach] ne have "reads_in_range (tracker s)" by simp
  from tracker_cycles_in_range [OF this len] obtain evs t' where
    t: "tracker_cycles (tracker s) (map getInst cs) = Inr (evs, t')" by blast
  have "\<forall>j<length cs. counter_after (trace_count s) (take j (map fst evs)) < max_cycles s"
  proof (intro allI impI)
    fix j assume j: "j < length cs"
    have "unat (counter_after (trace_count s) (take j (map fst evs)))
        \<le> unat (trace_count s) + length (take j (map fst evs))"
      by (rule counter_after_le)
    also have "\<dots> \<le> unat (trace_count s) + j" by simp
    also have "\<dots> < unat (trace_count s) + length cs" using j by simp
    also note room
    finally show "counter_after (trace_count s) (take j (map fst evs)) < max_cycles s"
      by (simp add: word_less_nat_alt)
  qed
  from iterate_exists [OF t quiet ret this] show ?thesis by blast
qed

lemma no_timeout_in_loop:
  assumes "main_loop cfg (init_state budget b0) cs = Some (Inr s)"
  shows "\<forall>n. TimeoutMsg n \<notin> set (events s)"
  using assms
proof (rule main_loop_invariant)
  show "\<forall>n. TimeoutMsg n \<notin> set (events (init_state budget b0))"
    by (simp add: init_state_def)
next
  fix s c s'
  assume "\<forall>n. TimeoutMsg n \<notin> set (events s)" and b: "loop_body cfg s c = Inr s'"
  then show "\<forall>n. TimeoutMsg n \<notin> set (events s')"
    by (elim loop_body_result) auto
qed

lemma finish_timeout:
  assumes "code = 0" "trace_count s = max_cycles s"
  shows "ret (finish cfg code s) = 2" "trace_count (finish cfg code s) = trace_count s"
    "TimeoutMsg (trace_count s) \<in> set (events (finish cfg code s))"
    "filter ((=) ClockHi) (events (finish cfg code s)) = filter ((=) ClockHi) (events s)"
  using assms by (simp_all add: finish_def Let_def)

lemma run_to_budget:
  assumes len: "n < length cs"
    and quiet: "\<forall>c\<in>set (take n cs). \<not> htif_done c \<and> \<not> clock_lo_throws c"
    and trk: "tracker_cycles MagicTracker_new (map getInst (take n cs)) = Inr (evs, t')"
    and bound: "\<forall>j<n. counter_after 0 (take j (map fst evs)) < budget"
    and final: "counter_after 0 (map fst evs) = budget"
  shows "\<exists>s. emulator_main cfg budget b0 cs 0 = Some (Inr s)
       \<and> length (filter ((=) ClockHi) (events s)) = n
       \<and> trace_count s = budget \<and> ret s = 2 \<and> TimeoutMsg budget \<in> set (events s)"
proof -
  let ?s0 = "init_state budget b0"
  let ?pre = "take n cs"
  have lp: "length ?pre = n" using len by simp
  have s0: "tracker ?s0 = MagicTracker_new" "ret ?s0 = 0" "trace_count ?s0 = 0"
    "max_cycles ?s0 = budget" "events ?s0 = []"
    by (simp_all add: init_state_def)
  have trk0: "tracker_cycles (tracker ?s0) (map getInst ?pre) = Inr (evs, t')"
    using trk s0 by simp
  have bound0: "\<forall>j<length ?pre. counter_after (trace_count ?s0) (take j (map fst evs)) < max_cycles ?s0"
    using bound lp s0 by simp
  from iterate_exists [OF trk0 quiet s0(2) bound0, of cfg]
  obtain s1 where it: "iterate cfg ?s0 ?pre = Some s1" and m: "max_cycles s1 = budget"
    and r: "ret s1 = 0"
    using s0 by auto
  from iterate_tracker [OF it] obtain evs1 where
    e1: "tracker_cycles (tracker ?s0) (map getInst ?pre) = Inr (evs1, tracker s1)"
    and tc: "trace_count s1 = counter_after (trace_count ?s0) (map fst evs1)"
    and ch: "length (filter ((=) ClockHi) (new_events ?s0 s1)) = length ?pre"
    by blast
  from e1 trk0 have "evs1 = evs" by simp
  with tc final s0 have tcb: "trace_count s1 = budget" by simp
  from iterate_events [OF it] s0 have ev: "events s1 = new_events ?s0 s1" by simp
  obtain c' rest where cs: "cs = ?pre @ c' # rest"
    using len by (metis append_take_drop_id Cons_nth_drop_Suc)
  have nc: "\<not> loop_cond s1 c'" using tcb m by (simp add: loop_cond_def)
  have "main_loop cfg ?s0 (?pre @ c' # rest) = main_loop cfg s1 (c' # rest)"
    using it by (rule main_loop_iterate)
  then have ml: "main_loop cfg ?s0 cs = Some (Inr s1)" using nc cs by simp
  have em: "emulator_main cfg budget b0 cs 0 = Some (Inr (finish cfg 0 s1))"
    using ml by (simp add: emulator_main_def)
  have eq: "trace_count s1 = max_cycles s1" using tcb m by simp
  note f = finish_timeout [OF refl eq, of cfg]
  show ?thesis
    apply (rule exI [of _ "finish cfg 0 s1"])
    using em f ch lp ev tcb apply simp
    done
qed

lemma of_nat_less_word:
  fixes w :: "'a::len word"
  assumes "n < unat w"
  shows "of_nat n < w"
proof -
  have "unat w < 2 ^ LENGTH('a)" by (rule unsigned_less)
  with assms have "n < 2 ^ LENGTH('a)" by (rule less_trans)
  then have "n mod 2 ^ LENGTH('a) = n" by (rule mod_less)
  then have "unat (of_nat n :: 'a word) = n" by (simp add: unat_of_nat)
  with assms show ?thesis by (simp add: word_less_nat_alt)
qed

lemma counter_after_reset:
  "counter_after n (replicate k False @ True # replicate d False) = of_nat (Suc d)"
  by (simp add: counter_after_append counter_after_idle)

lemma reset_extends_run:
  assumes k: "k < unat budget"
    and len: "k + unat budget < length cs"
    and quiet: "\<forall>c\<in>set (take (k + unat budget) cs). \<not> htif_done c \<and> \<not> clock_lo_throws c"
    and trk: "tracker_cycles MagicTracker_new (map getInst (take (k + unat budget) cs)) = Inr (evs, t')"
    and one: "map fst evs = replicate k False @ True # replicate (unat budget - 1) False"
  shows "\<exists>s. emulator_main cfg budget b0 cs 0 = Some (Inr s)
       \<and> length (filter ((=) ClockHi) (events s)) = k + unat budget
       \<and> trace_count s = budget \<and> ret s = 2 \<and> TimeoutMsg budget \<in> set (events s)"
proof -
  define m where "m = unat budget"
  have m: "0 < m" "k < m" using k by (simp_all add: m_def)
  have bound: "\<forall>j<k + unat budget. counter_after 0 (take j (map fst evs)) < budget"
  proof (intro allI impI)
    fix j assume j: "j < k + unat budget"
    show "counter_after 0 (take j (map fst evs)) < budget"
    proof (cases "j \<le> k")
      case True
      then have "take j (map fst evs) = replicate j False" by (simp add: one min_def)
      moreover have "(of_nat j :: 64 word) < budget"
        using True k by (intro of_nat_less_word) simp
      ultimately show ?thesis by (simp add: counter_after_idle)
    next
      case False
      then have "k < j" by simp
      then obtain d where d: "j = k + Suc d" by (auto dest: less_imp_Suc_add)
      with j have dm: "Suc d < unat budget" by simp
      then have "take j (map fst evs) = replicate k False @ True # replicate d False"
        by (simp add: one d min_def)
      moreover have "(of_nat (Suc d) :: 64 word) < budget"
        using dm by (rule of_nat_less_word)
      ultimately show ?thesis by (simp only: counter_after_reset)
    qed
  qed
  have "Suc (unat budget - 1) = unat budget" using k by simp
  then have final: "counter_after 0 (map fst evs) = budget"
    unfolding one by (simp only: counter_after_reset of_nat_unat ucast_id)
  from run_to_budget [OF len quiet trk bound final] show ?thesis .
qed

lemma elapsed_append [simp]: "elapsed k (xs @ ys) = elapsed (elapsed k xs) ys"
  by (induction k xs rule: elapsed.induct) simp_all

lemma reports_exact_append [simp]:
  "reports_exact k (xs @ ys) \<longleftrightarrow> reports_exact k xs \<and> reports_exact (elapsed k xs) ys"
  by (induction k xs rule: reports_exact.induct) simp_all

lemma elapsed_channels [simp]:
  "elapsed k (map MmDrive ns) = k" "elapsed k (map MmTick ns) = k"
  by (induction ns) simp_all

lemma reports_exact_channels [simp]:
  "reports_exact k (map MmDrive ns)" "reports_exact k (map MmTick ns)"
  by (induction ns) simp_all

lemma count_inv_init: "count_inv (init_state budget b0)"
  by (simp add: count_inv_def init_state_def)

lemma unat_Suc_below:
  fixes x :: "'a::len word"
  assumes "x < y"
  shows "unat (x + 1) = Suc (unat x)"
proof -
  from assms have "x + 1 \<noteq> 0" by (rule word_less_Suc_neq0)
  then have "1 + x \<noteq> 0" by (simp add: add.commute)
  then have "unat (1 + x) = Suc (unat x)" by (rule unatSuc)
  then show ?thesis by (simp add: add.commute)
qed

lemma printf_d_zero [simp]: "printf_d 0 = 0"
  by (simp add: printf_d_def)

lemma printf_d_small:
  assumes "unat n < 2 ^ 31"
  shows "printf_d n = int (unat n)"
proof -
  let ?w = "ucast n :: 32 word"
  have un: "int (unat n) = uint n" by simp
  from assms have "int (unat n) < int (2 ^ 31)" by (simp only: of_nat_less_iff)
  then have lt: "uint n < 2 ^ 31" unfolding un by simp
  have ge: "- (2 ^ 31) \<le> uint n"
    by (rule order_trans [of _ 0]) simp_all
  have "uint ?w = take_bit 32 (uint n)" by (simp add: unsigned_ucast_eq)
  also have "\<dots> = uint n"
  proof (rule take_bit_int_eq_self)
    show "0 \<le> uint n" by simp
    from lt show "uint n < 2 ^ 32" by (rule less_trans) simp
  qed
  finally have u: "uint ?w = uint n" .
  have "sint ?w = signed_take_bit 31 (uint ?w)" by (simp add: sint_uint)
  also have "\<dots> = uint n" unfolding u using ge lt by (rule signed_take_bit_int_eq_self)
  finally have "sint ?w = uint n" .
  then show ?thesis unfolding printf_d_def un .
qed

lemma unat_add_of_nat:
  fixes x :: "'a::len word"
  assumes "unat x + m < 2 ^ LENGTH('a)"
  shows "unat (x + of_nat m) = unat x + m"
proof -
  have "m \<le> unat x + m" by simp
  from this assms have "m < 2 ^ LENGTH('a)" by (rule le_less_trans)
  then have "m mod 2 ^ LENGTH('a) = m" by (rule mod_less)
  then have m: "unat (of_nat m :: 'a word) = m" by (simp add: unat_of_nat)
  from assms have "(unat x + m) mod 2 ^ LENGTH('a) = unat x + m" by (rule mod_less)
  then show ?thesis by (simp add: unat_word_ariths m)
qed

lemma printf_d_counter:
  assumes "unat n + m < 2 ^ 31"
  shows "printf_d (n + of_nat m) = int (unat n + m)"
proof -
  have "(2::nat) ^ 31 < 2 ^ LENGTH(64)" by simp
  with assms have "unat n + m < 2 ^ LENGTH(64)" by (rule less_trans)
  then have u: "unat (n + of_nat m) = unat n + m" by (rule unat_add_of_nat)
  with assms have "unat (n + of_nat m) < 2 ^ 31" by simp
  then have "printf_d (n + of_nat m) = int (unat (n + of_nat m))" by (rule printf_d_small)
  with u show ?thesis by simp
qed

lemma printf_d_wraps: "printf_d 0x80000000 = - 2147483648"
  unfolding printf_d_def by code_simp

lemma count_inv_step:
  assumes inv: "count_inv s" and cond: "loop_cond s c" and body: "loop_body cfg s c = Inr s'"
  shows "count_inv s'"
  using body
proof (rule loop_body_result)
  fix hs hp t'
  assume tc: "trace_count s' = (if hs then 0 else trace_count s) + 1"
    and ev: "events s' = events s
       @ map MmDrive [0..<N_MEM_CHANNELS cfg]
       @ ClockLo # (if clock_lo_throws c then [EvalError] else [])
       @ map MmTick [0..<N_MEM_CHANNELS cfg]
       @ (if Top_io_host_clk_edge c then
            (if Top_io_host_in_ready c \<or> \<not> htif_in_valid s then [HtifRecv] else [])
            @ (if Top_io_host_out_valid c then [HtifSend (Top_io_host_out_bits c)] else [])
          else [])
       @ (if log cfg \<and> start cfg \<le> trace_count s then [Print] else [])
       @ (if hs then [ResetMsg] else [])
       @ (if hp then [CycleCountMsg (printf_d (if hs then 0 else trace_count s))] else [])
       @ (if trace_due cfg (if hs then 0 else trace_count s)
          then [Dump (if hs then 0 else trace_count s)] else [])
       @ [ClockHi]"
  from cond have "trace_count s < max_cycles s" by (simp add: loop_cond_def)
  then have u: "unat (trace_count s + 1) = Suc (unat (trace_count s))" by (rule unat_Suc_below)
  from inv have r: "reports_exact 0 (events s)" and e: "unat (trace_count s) = elapsed 0 (events s)"
    by (simp_all add: count_inv_def)
  have p: "elapsed 0 (events s) < 2 ^ 31 \<longrightarrow>
      printf_d (trace_count s) = int (elapsed 0 (events s))"
    using printf_d_small [of "trace_count s"] e by simp
  show ?thesis
    unfolding count_inv_def tc ev using r e u p by simp
qed

lemma iterate_count_inv:
  "iterate cfg (init_state budget b0) cs = Some s \<Longrightarrow> count_inv s"
  by (erule iterate_invariant [where P = count_inv]) (auto simp: count_inv_init count_inv_step)

lemma timeout_only_at_budget:
  assumes "emulator_main cfg budget b0 cs code = Some (Inr s)" and "TimeoutMsg n \<in> set (events s)"
  shows "code = 0 \<and> ret s = 2 \<and> trace_count s = max_cycles s \<and> n = trace_count s"
proof -
  from assms(1) obtain s1 where m: "main_loop cfg (init_state budget b0) cs = Some (Inr s1)"
    and s: "s = finish cfg code s1"
    by (auto simp: emulator_main_def split: option.splits sum.splits)
  from no_timeout_in_loop [OF m] have "TimeoutMsg n \<notin> set (events s1)" by simp
  with assms(2) show ?thesis unfolding s
    by (auto simp: finish_def Let_def split: if_splits)
qed

lemma filter_singleton_report:
  assumes "length (filter is_report xs) = 1"
  shows "\<exists>n. filter is_report xs = [CycleCountMsg n]"
proof -
  from assms obtain e where e: "filter is_report xs = [e]"
    by (cases "filter is_report xs") auto
  then have "e \<in> set (filter is_report xs)" by simp
  then have "is_report e" by simp
  then obtain n where "e = CycleCountMsg n" by (cases e) (simp_all add: is_report_def)
  with e show ?thesis by simp
qed

lemmas run_defs = loop_cond_def body_defs word_le_nat_alt word_less_nat_alt

lemma iterate_split:
  "iterate cfg s xs = Some s1 \<Longrightarrow> iterate cfg s (xs @ ys) = Some s2 \<Longrightarrow> iterate cfg s1 ys = Some s2"
  by (simp add: iterate_append)

lemma pending_frame_kept:
  assumes "iterate cfg s cs = Some s'" and "htif_in_valid s"
    and "\<forall>c\<in>set cs. Top_io_host_clk_edge c \<longrightarrow> \<not> Top_io_host_in_ready c"
  shows "HtifRecv \<notin> set (new_events s s') \<and> htif_in_valid s' \<and> htif_in_bits s' = htif_in_bits s
       \<and> (if \<exists>c\<in>set cs. Top_io_host_clk_edge c
            then Top_io_host_in_valid s' \<and> Top_io_host_in_bits s' = htif_in_bits s
            else Top_io_host_in_valid s' = Top_io_host_in_valid s
               \<and> Top_io_host_in_bits s' = Top_io_host_in_bits s)"
  using assms
proof (induction cs arbitrary: s)
  case Nil
  then show ?case by simp
next
  case (Cons c cs)
  from Cons.prems(1) obtain s1 where b: "loop_body cfg s c = Inr s1"
    and r: "iterate cfg s1 cs = Some s'"
    by (auto split: if_splits sum.splits)
  from Cons.prems(3) have c: "Top_io_host_clk_edge c \<longrightarrow> \<not> Top_io_host_in_ready c"
    and cs: "\<forall>c\<in>set cs. Top_io_host_clk_edge c \<longrightarrow> \<not> Top_io_host_in_ready c"
    by simp_all
  from b have 1: "HtifRecv \<notin> set (new_events s s1) \<and> htif_in_valid s1
      \<and> htif_in_bits s1 = htif_in_bits s
      \<and> (if Top_io_host_clk_edge c
          then Top_io_host_in_valid s1 \<and> Top_io_host_in_bits s1 = htif_in_bits s
          else Top_io_host_in_valid s1 = Top_io_host_in_valid s
             \<and> Top_io_host_in_bits s1 = Top_io_host_in_bits s)"
    by (rule loop_body_result) (use Cons.prems(2) c in \<open>auto simp: new_events_def\<close>)
  then have v1: "htif_in_valid s1" by simp
  note 2 = Cons.IH [OF r v1 cs]
  have n: "new_events s s' = new_events s s1 @ new_events s1 s'"
    using loop_body_new_events [OF b] iterate_events [OF r] by (rule new_events_trans)
  from 1 2 show ?case unfolding n by (auto split: if_splits)
qed

section \<open>The claims\<close>

subsection \<open>The tracker's window\<close>

text \<open>
  C8 says that the comparison after a push reads only slots that hold a pushed element,
  also on the first three pushes. It does not: \<^verbatim>\<open>nextInst\<close> compares without looking at
  \<^verbatim>\<open>size()\<close>, and \<^verbatim>\<open>&&\<close> stops only at the first slot that differs. When the first
  instruction a new tracker sees is the first word of the start sequence, slot 0 matches
  and slot 1, which holds nothing yet, is read.
\<close>

theorem nextInst_reads_unpushed_slot:
  "nextInst MagicTracker_new 0x04550513 = Inl CbIndexOutOfRange"
  by (simp add: tracker_defs)

text \<open>Once four instructions have been pushed the window stays full and every read is
  in range.\<close>

lemma nextInst_full_in_range:
  assumes "length (insts t) = MAGIC_LEN"
  shows "\<exists>t'. nextInst t i = Inr t' \<and> length (insts t') = MAGIC_LEN"
proof -
  from assms obtain a b c d where "insts t = [a, b, c, d]"
    by (auto simp: MAGIC_LEN_def length_Suc_conv numeral_eq_Suc)
  then show ?thesis
    by (simp add: nextInst_def cb_push_back_def MAGIC_LEN_def magic_check_defs Let_def
        split: bool.splits)
qed



subsection \<open>Trace records\<close>

text \<open>
  C7: with tracing enabled and \<^verbatim>\<open>+start=10\<close>, an iteration writes a trace record exactly
  when its cycle index \<open>i\<close> is 0 or at least 10, and the record carries \<open>i\<close>. The cycle
  index of an iteration is the counter at the time of the test (after a reset by a
  start event, before the increment), that is the counter after the iteration minus 1.
\<close>

theorem trace_record_threshold:
  assumes "vcd cfg" and "start cfg = 10" and "loop_body cfg s c = Inr s'"
  shows "(trace_count s' - 1 = 0 \<longrightarrow> Dump 0 \<in> set (new_events s s'))
       \<and> (1 \<le> trace_count s' - 1 \<and> trace_count s' - 1 \<le> 9 \<longrightarrow>
            (\<forall>n. Dump n \<notin> set (new_events s s')))
       \<and> (10 \<le> trace_count s' - 1 \<longrightarrow> Dump (trace_count s' - 1) \<in> set (new_events s s'))
       \<and> (\<forall>n. Dump n \<in> set (new_events s s') \<longrightarrow> n = trace_count s' - 1)"
  using assms(3)
proof (rule loop_body_result)
  fix hs hp t'
  assume tc: "trace_count s' = (if hs then 0 else trace_count s) + 1"
    and ev: "events s' = events s
       @ map MmDrive [0..<N_MEM_CHANNELS cfg]
       @ ClockLo # (if clock_lo_throws c then [EvalError] else [])
       @ map MmTick [0..<N_MEM_CHANNELS cfg]
       @ (if Top_io_host_clk_edge c then
            (if Top_io_host_in_ready c \<or> \<not> htif_in_valid s then [HtifRecv] else [])
            @ (if Top_io_host_out_valid c then [HtifSend (Top_io_host_out_bits c)] else [])
          else [])
       @ (if log cfg \<and> start cfg \<le> trace_count s then [Print] else [])
       @ (if hs then [ResetMsg] else [])
       @ (if hp then [CycleCountMsg (printf_d (if hs then 0 else trace_count s))] else [])
       @ (if trace_due cfg (if hs then 0 else trace_count s)
          then [Dump (if hs then 0 else trace_count s)] else [])
       @ [ClockHi]"
  define i where "i = (if hs then 0 else trace_count s)"
  have i: "trace_count s' - 1 = i" by (simp add: tc i_def)
  have d: "Dump n \<in> set (new_events s s') \<longleftrightarrow> trace_due cfg i \<and> n = i" for n
    unfolding new_events_def ev i_def by auto
  have due: "trace_due cfg i \<longleftrightarrow> i = 0 \<or> 10 \<le> i"
    using assms(1,2) by (simp add: trace_due_def)
  have "1 \<le> i \<and> i \<le> 9 \<Longrightarrow> \<not> trace_due cfg i"
    unfolding due by (auto simp: word_le_nat_alt)
  then show ?thesis unfolding i d due by auto
qed

theorem trace_record_threshold_witness:
  "vcd cfg0 \<and> start cfg0 = 10
   \<and> loop_body cfg0 (init_state 100 0) (quiet 0x13) =
       Inr \<lparr>max_cycles = 100, trace_count = 1, ret = 0,
            tracker = \<lparr>insts = [0x13], needs_reset = False, needs_emit_cycle_count = False\<rparr>,
            htif_in_valid = False, htif_in_bits = 0, Top_io_host_in_valid = False,
            Top_io_host_in_bits = 0, Top_io_host_out_ready = False,
            events = [MmDrive 0, ClockLo, MmTick 0, Dump 0, ClockHi]\<rparr>
   \<and> loop_body cfg0 ((init_state 100 0)\<lparr>trace_count := 5\<rparr>) (quiet 0x13) =
       Inr \<lparr>max_cycles = 100, trace_count = 6, ret = 0,
            tracker = \<lparr>insts = [0x13], needs_reset = False, needs_emit_cycle_count = False\<rparr>,
            htif_in_valid = False, htif_in_bits = 0, Top_io_host_in_valid = False,
            Top_io_host_in_bits = 0, Top_io_host_out_ready = False,
            events = [MmDrive 0, ClockLo, MmTick 0, ClockHi]\<rparr>"
proof -
  have v: "vcd cfg0" and st: "start cfg0 = 10" by simp_all
  have b0: "loop_body cfg0 (init_state 100 0) (quiet 0x13) =
       Inr \<lparr>max_cycles = 100, trace_count = 1, ret = 0,
            tracker = \<lparr>insts = [0x13], needs_reset = False, needs_emit_cycle_count = False\<rparr>,
            htif_in_valid = False, htif_in_bits = 0, Top_io_host_in_valid = False,
            Top_io_host_in_bits = 0, Top_io_host_out_ready = False,
            events = [MmDrive 0, ClockLo, MmTick 0, Dump 0, ClockHi]\<rparr>"
    by (simp add: body_defs)
  have b5: "loop_body cfg0 ((init_state 100 0)\<lparr>trace_count := 5\<rparr>) (quiet 0x13) =
       Inr \<lparr>max_cycles = 100, trace_count = 6, ret = 0,
            tracker = \<lparr>insts = [0x13], needs_reset = False, needs_emit_cycle_count = False\<rparr>,
            htif_in_valid = False, htif_in_bits = 0, Top_io_host_in_valid = False,
            Top_io_host_in_bits = 0, Top_io_host_out_ready = False,
            events = [MmDrive 0, ClockLo, MmTick 0, ClockHi]\<rparr>"
    by (simp add: body_defs)
  from trace_record_threshold [OF v st b0] trace_record_threshold [OF v st b5] b0 b5
  show ?thesis by simp
qed

subsection \<open>The host bridge\<close>

text \<open>
  C2: while an inbound frame is pending (\<^verbatim>\<open>htif_in_valid\<close>), an iteration with the host
  clock edge and without inbound readiness of the hardware model does not call
  \<^verbatim>\<open>recv_nonblocking\<close>, and it drives the valid flag and the buffered frame, both
  unchanged, onto the inbound wires. Over any number of iterations in which the model is
  not ready on a clock edge, nothing is received, the buffered frame stays the same, and
  it is the frame on the wires from the first clock edge on.
\<close>

theorem pending_frame_not_refetched:
  assumes "htif_in_valid s"
  shows "(\<forall>c s'. Top_io_host_clk_edge c \<and> \<not> Top_io_host_in_ready c \<and> loop_body cfg s c = Inr s'
            \<longrightarrow> HtifRecv \<notin> set (new_events s s')
              \<and> Top_io_host_in_valid s' \<and> Top_io_host_in_bits s' = htif_in_bits s
              \<and> htif_in_valid s' \<and> htif_in_bits s' = htif_in_bits s)
       \<and> (\<forall>cs s'. (\<forall>c\<in>set cs. Top_io_host_clk_edge c \<longrightarrow> \<not> Top_io_host_in_ready c)
              \<and> iterate cfg s cs = Some s'
            \<longrightarrow> HtifRecv \<notin> set (new_events s s')
              \<and> htif_in_valid s' \<and> htif_in_bits s' = htif_in_bits s
              \<and> ((\<exists>c\<in>set cs. Top_io_host_clk_edge c)
                   \<longrightarrow> Top_io_host_in_valid s' \<and> Top_io_host_in_bits s' = htif_in_bits s))"
proof (rule conjI)
  show "\<forall>c s'. Top_io_host_clk_edge c \<and> \<not> Top_io_host_in_ready c \<and> loop_body cfg s c = Inr s'
            \<longrightarrow> HtifRecv \<notin> set (new_events s s')
              \<and> Top_io_host_in_valid s' \<and> Top_io_host_in_bits s' = htif_in_bits s
              \<and> htif_in_valid s' \<and> htif_in_bits s' = htif_in_bits s"
  proof (intro allI impI)
    fix c s'
    assume a: "Top_io_host_clk_edge c \<and> \<not> Top_io_host_in_ready c \<and> loop_body cfg s c = Inr s'"
    then have "loop_body cfg s c = Inr s'" by simp
    then show "HtifRecv \<notin> set (new_events s s')
        \<and> Top_io_host_in_valid s' \<and> Top_io_host_in_bits s' = htif_in_bits s
        \<and> htif_in_valid s' \<and> htif_in_bits s' = htif_in_bits s"
      by (rule loop_body_result) (use assms a in \<open>auto simp: new_events_def\<close>)
  qed
next
  show "\<forall>cs s'. (\<forall>c\<in>set cs. Top_io_host_clk_edge c \<longrightarrow> \<not> Top_io_host_in_ready c)
              \<and> iterate cfg s cs = Some s'
            \<longrightarrow> HtifRecv \<notin> set (new_events s s')
              \<and> htif_in_valid s' \<and> htif_in_bits s' = htif_in_bits s
              \<and> ((\<exists>c\<in>set cs. Top_io_host_clk_edge c)
                   \<longrightarrow> Top_io_host_in_valid s' \<and> Top_io_host_in_bits s' = htif_in_bits s)"
  proof (intro allI impI)
    fix cs s'
    assume a: "(\<forall>c\<in>set cs. Top_io_host_clk_edge c \<longrightarrow> \<not> Top_io_host_in_ready c)
        \<and> iterate cfg s cs = Some s'"
    then have "iterate cfg s cs = Some s'"
      and "\<forall>c\<in>set cs. Top_io_host_clk_edge c \<longrightarrow> \<not> Top_io_host_in_ready c"
      by simp_all
    from pending_frame_kept [OF this(1) assms this(2)]
    show "HtifRecv \<notin> set (new_events s s')
        \<and> htif_in_valid s' \<and> htif_in_bits s' = htif_in_bits s
        \<and> ((\<exists>c\<in>set cs. Top_io_host_clk_edge c)
             \<longrightarrow> Top_io_host_in_valid s' \<and> Top_io_host_in_bits s' = htif_in_bits s)"
      by (auto split: if_splits)
  qed
qed

theorem pending_frame_not_refetched_witness:
  "htif_in_valid ((init_state 100 0)\<lparr>htif_in_valid := True, htif_in_bits := 7\<rparr>)
   \<and> loop_body cfg0 ((init_state 100 0)\<lparr>htif_in_valid := True, htif_in_bits := 7\<rparr>)
        ((quiet 0x13)\<lparr>Top_io_host_clk_edge := True, recv_ret := True, recv_buf := 9\<rparr>)
      = Inr \<lparr>max_cycles = 100, trace_count = 1, ret = 0, tracker = win [0x13],
          htif_in_valid = True, htif_in_bits = 7, Top_io_host_in_valid = True,
          Top_io_host_in_bits = 7, Top_io_host_out_ready = True,
          events = [MmDrive 0, ClockLo, MmTick 0, Dump 0, ClockHi]\<rparr>
   \<and> iterate cfg0 ((init_state 100 0)\<lparr>htif_in_valid := True, htif_in_bits := 7\<rparr>)
        [(quiet 0x13)\<lparr>Top_io_host_clk_edge := True, recv_ret := True, recv_buf := 9\<rparr>,
         quiet 0x13,
         (quiet 0x13)\<lparr>Top_io_host_clk_edge := True, recv_ret := True, recv_buf := 9\<rparr>]
      = Some \<lparr>max_cycles = 100, trace_count = 3, ret = 0, tracker = win [0x13],
          htif_in_valid = True, htif_in_bits = 7, Top_io_host_in_valid = True,
          Top_io_host_in_bits = 7, Top_io_host_out_ready = True,
          events = [MmDrive 0, ClockLo, MmTick 0, Dump 0, ClockHi,
                    MmDrive 0, ClockLo, MmTick 0, ClockHi,
                    MmDrive 0, ClockLo, MmTick 0, ClockHi]\<rparr>"
proof -
  let ?s = "(init_state 100 0)\<lparr>htif_in_valid := True, htif_in_bits := 7\<rparr>"
  let ?c = "(quiet 0x13)\<lparr>Top_io_host_clk_edge := True, recv_ret := True, recv_buf := 9\<rparr>"
  have v: "htif_in_valid ?s" by simp
  have b: "loop_body cfg0 ?s ?c
      = Inr \<lparr>max_cycles = 100, trace_count = 1, ret = 0, tracker = win [0x13],
          htif_in_valid = True, htif_in_bits = 7, Top_io_host_in_valid = True,
          Top_io_host_in_bits = 7, Top_io_host_out_ready = True,
          events = [MmDrive 0, ClockLo, MmTick 0, Dump 0, ClockHi]\<rparr>"
    by (simp add: body_defs)
  have r: "iterate cfg0 ?s [?c, quiet 0x13, ?c]
      = Some \<lparr>max_cycles = 100, trace_count = 3, ret = 0, tracker = win [0x13],
          htif_in_valid = True, htif_in_bits = 7, Top_io_host_in_valid = True,
          Top_io_host_in_bits = 7, Top_io_host_out_ready = True,
          events = [MmDrive 0, ClockLo, MmTick 0, Dump 0, ClockHi,
                    MmDrive 0, ClockLo, MmTick 0, ClockHi,
                    MmDrive 0, ClockLo, MmTick 0, ClockHi]\<rparr>"
    by (simp add: run_defs)
  from pending_frame_not_refetched [OF v, of cfg0] b r show ?thesis by simp
qed

subsection \<open>A failing evaluation\<close>




subsection \<open>The exit status\<close>

text \<open>
  C10: in a run in which \<^verbatim>\<open>clock_lo\<close> has thrown (so that \<open>ret\<close> is 1 when the loop ends)
  and the transport reports a status other than 0, \<^verbatim>\<open>main\<close> returns the transport's
  status.
\<close>

theorem transport_status_overrides_failure:
  assumes "emulator_main cfg budget b0 cs code = Some (Inr s)"
    and "EvalError \<in> set (events s)" and "code \<noteq> 0"
  shows "ret s = code
       \<and> (\<exists>s1. main_loop cfg (init_state budget b0) cs = Some (Inr s1) \<and> ret s1 = 1
            \<and> s = finish cfg code s1)"
proof -
  from assms(1) obtain s1 where m: "main_loop cfg (init_state budget b0) cs = Some (Inr s1)"
    and s: "s = finish cfg code s1"
    by (auto simp: emulator_main_def split: option.splits sum.splits)
  from assms(2) s have "EvalError \<in> set (events s1)" by (simp add: finish_events_EvalError)
  with eval_error_ret [OF m] have "ret s1 = 1" by auto
  moreover have "ret s = code" using assms(3) s by (simp add: finish_def Let_def)
  ultimately show ?thesis using m s by blast
qed

theorem transport_status_overrides_failure_witness:
  "emulator_main cfg0 100 0 [quiet 0x13, failing 0x33, quiet 0x33] 3
     = Some (Inr \<lparr>max_cycles = 1, trace_count = 2, ret = 3,
         tracker = \<lparr>insts = [0x13, 0x33], needs_reset = False, needs_emit_cycle_count = False\<rparr>,
         htif_in_valid = True, htif_in_bits = 7, Top_io_host_in_valid = True,
         Top_io_host_in_bits = 7, Top_io_host_out_ready = True,
         events = [MmDrive 0, ClockLo, MmTick 0, Dump 0, ClockHi,
                   MmDrive 0, ClockLo, EvalError, MmTick 0, HtifRecv, HtifSend 5, ClockHi,
                   CloseVcd, FailedMsg 3 2]\<rparr>)"
proof -
  let ?s = "\<lparr>max_cycles = 1, trace_count = 2, ret = 3,
         tracker = \<lparr>insts = [0x13, 0x33], needs_reset = False, needs_emit_cycle_count = False\<rparr>,
         htif_in_valid = True, htif_in_bits = 7, Top_io_host_in_valid = True,
         Top_io_host_in_bits = 7, Top_io_host_out_ready = True,
         events = [MmDrive 0, ClockLo, MmTick 0, Dump 0, ClockHi,
                   MmDrive 0, ClockLo, EvalError, MmTick 0, HtifRecv, HtifSend 5, ClockHi,
                   CloseVcd, FailedMsg 3 2]\<rparr>"
  have r: "emulator_main cfg0 100 0 [quiet 0x13, failing 0x33, quiet 0x33] 3 = Some (Inr ?s)"
    by (simp add: emulator_main_def loop_cond_def finish_def body_defs word_le_nat_alt)
  have e: "EvalError \<in> set (events ?s)" by simp
  from transport_status_overrides_failure [OF r e] r show ?thesis by simp
qed

subsection \<open>The magic sequences\<close>

text \<open>
  C4 says that the cycles in which the four start words are reported produce exactly one
  start event. They produce two when the three newest entries of the window are the
  first three words already: the fourth word of the sequence is its first word again, so
  that the first cycle completes an occurrence of its own. After the instructions
  \<open>0x13\<close>, \<open>0x04550513\<close>, \<open>0x04d50513\<close>, \<open>0x04250513\<close> the four start words reset the
  counter in their first cycle and in their fourth.
\<close>

theorem start_sequence_overlap_two_events:
  "iterate cfg0 (init_state 100 0) (map quiet [0x13, 0x04550513, 0x04d50513, 0x04250513])
     = Some \<lparr>max_cycles = 100, trace_count = 4, ret = 0,
         tracker = win [0x13, 0x04550513, 0x04d50513, 0x04250513],
         htif_in_valid = False, htif_in_bits = 0, Top_io_host_in_valid = False,
         Top_io_host_in_bits = 0, Top_io_host_out_ready = False,
         events = [MmDrive 0, ClockLo, MmTick 0, Dump 0, ClockHi,
                   MmDrive 0, ClockLo, MmTick 0, ClockHi,
                   MmDrive 0, ClockLo, MmTick 0, ClockHi,
                   MmDrive 0, ClockLo, MmTick 0, ClockHi]\<rparr>
   \<and> iterate cfg0
         \<lparr>max_cycles = 100, trace_count = 4, ret = 0,
           tracker = win [0x13, 0x04550513, 0x04d50513, 0x04250513],
           htif_in_valid = False, htif_in_bits = 0, Top_io_host_in_valid = False,
           Top_io_host_in_bits = 0, Top_io_host_out_ready = False,
           events = [MmDrive 0, ClockLo, MmTick 0, Dump 0, ClockHi,
                     MmDrive 0, ClockLo, MmTick 0, ClockHi,
                     MmDrive 0, ClockLo, MmTick 0, ClockHi,
                     MmDrive 0, ClockLo, MmTick 0, ClockHi]\<rparr>
         (map quiet [0x04550513, 0x04d50513, 0x04250513, 0x04550513])
     = Some \<lparr>max_cycles = 100, trace_count = 1, ret = 0,
         tracker = win [0x04550513, 0x04d50513, 0x04250513, 0x04550513],
         htif_in_valid = False, htif_in_bits = 0, Top_io_host_in_valid = False,
         Top_io_host_in_bits = 0, Top_io_host_out_ready = False,
         events = [MmDrive 0, ClockLo, MmTick 0, Dump 0, ClockHi,
                   MmDrive 0, ClockLo, MmTick 0, ClockHi,
                   MmDrive 0, ClockLo, MmTick 0, ClockHi,
                   MmDrive 0, ClockLo, MmTick 0, ClockHi,
                   MmDrive 0, ClockLo, MmTick 0, ResetMsg, Dump 0, ClockHi,
                   MmDrive 0, ClockLo, MmTick 0, ClockHi,
                   MmDrive 0, ClockLo, MmTick 0, ClockHi,
                   MmDrive 0, ClockLo, MmTick 0, ResetMsg, Dump 0, ClockHi]\<rparr>"
  by (simp add: run_defs)

text \<open>
  C4 as the code has it: in a run of the emulator, let the instructions reported over
  some cycles be the four words of the start sequence, each held for one or more cycles.
  From the second of these cycles on, \<^verbatim>\<open>hitStart\<close> answers true in exactly one cycle, the
  first one of the fourth word, and false in all cycles after it. In the first cycle it
  answers true exactly when the three newest entries of the window were the first three
  words of the sequence, which the first word then completes. The counter is reset in
  every cycle where \<^verbatim>\<open>hitStart\<close> answers true, so that one or two reset messages are
  printed, and it is 1 after the first cycle of the fourth word and \<open>1 + d\<close> after the \<open>d\<close>
  further cycles of that word. Once the tracker has observed an instruction, none of
  its reads in these cycles is out of range, and the loop goes through all of them when
  no evaluation has failed or fails, the transport is not done and the budget has room
  for them.
\<close>

theorem start_sequence_one_event:
  assumes reach: "iterate cfg (init_state budget b0) cs0 = Some s"
    and obs: "map getInst cs = replicate (Suc a) 0x04550513 @ replicate (Suc b) 0x04d50513
                @ replicate (Suc c) 0x04250513 @ replicate (Suc d) 0x04550513"
  shows "(insts (tracker s) \<noteq> [] \<longrightarrow>
            (\<exists>evs t'. tracker_cycles (tracker s) (map getInst cs) = Inr (evs, t')))
       \<and> (insts (tracker s) \<noteq> [] \<and> ret s = 0
            \<and> (\<forall>c\<in>set cs. \<not> htif_done c \<and> \<not> clock_lo_throws c)
            \<and> unat (trace_count s) + length cs \<le> unat (max_cycles s) \<longrightarrow>
            (\<exists>s'. iterate cfg s cs = Some s'))
       \<and> (\<forall>s'. iterate cfg s cs = Some s' \<longrightarrow>
            (\<exists>e evs. tracker_cycles (tracker s) (map getInst cs) = Inr (e # evs, tracker s')
               \<and> (fst e \<longleftrightarrow> drop (length (insts (tracker s)) - 3) (insts (tracker s))
                                = [MAGIC_START0, MAGIC_START1, MAGIC_START2])
               \<and> map fst evs = replicate (a + b + c + 2) False @ True # replicate d False
               \<and> length (filter ((=) ResetMsg) (new_events s s')) = (if fst e then 2 else 1)
               \<and> trace_count s' = 1 + of_nat d
               \<and> \<not> needs_reset (tracker s')))"
proof (intro conjI impI allI)
  from iterate_window_inv [OF reach] have clear: "\<not> needs_reset (tracker s)"
    and len: "length (insts (tracker s)) \<le> MAGIC_LEN"
    by (simp_all add: window_inv_def)
  {
    assume "insts (tracker s) \<noteq> []"
    with iterate_reads_in_range [OF reach] have "reads_in_range (tracker s)" by simp
    then show "\<exists>evs t'. tracker_cycles (tracker s) (map getInst cs) = Inr (evs, t')"
      using len by (rule tracker_cycles_in_range)
  }
  {
    assume "insts (tracker s) \<noteq> [] \<and> ret s = 0
            \<and> (\<forall>c\<in>set cs. \<not> htif_done c \<and> \<not> clock_lo_throws c)
            \<and> unat (trace_count s) + length cs \<le> unat (max_cycles s)"
    then have "insts (tracker s) \<noteq> []" "ret s = 0"
      "\<forall>c\<in>set cs. \<not> htif_done c \<and> \<not> clock_lo_throws c"
      "unat (trace_count s) + length cs \<le> unat (max_cycles s)"
      by simp_all
    with reach show "\<exists>s'. iterate cfg s cs = Some s'" by (rule feed_runs)
  }
  fix s' assume run: "iterate cfg s cs = Some s'"
  from iterate_tracker [OF run] obtain evs0 where
    1: "tracker_cycles (tracker s) (map getInst cs) = Inr (evs0, tracker s')"
    and 2: "trace_count s' = counter_after (trace_count s) (map fst evs0)"
    and 3: "length (filter ((=) ResetMsg) (new_events s s')) = length (filter fst evs0)"
    by blast
  from start_sequence_any [OF 1 [unfolded obs] clear len] obtain e evs where
    v: "evs0 = e # evs"
    and e: "fst e \<longleftrightarrow> drop (length (insts (tracker s)) - 3) (insts (tracker s))
                        = [MAGIC_START0, MAGIC_START1, MAGIC_START2]"
    and f: "map fst evs = replicate (a + b + c + 2) False @ True # replicate d False"
    and t: "tracker s' = win [0x04550513, 0x04d50513, 0x04250513, 0x04550513]"
    by blast
  have "length (filter fst evs) = length (filter id (map fst evs))"
    by (simp add: filter_map comp_def)
  also have "\<dots> = 1" unfolding f by simp
  finally have "length (filter fst evs0) = (if fst e then 2 else 1)" unfolding v by simp
  with 3 have n: "length (filter ((=) ResetMsg) (new_events s s')) = (if fst e then 2 else 1)"
    by simp
  have tc: "trace_count s' = 1 + of_nat d"
    unfolding 2 v list.map f counter_after.simps
    by (simp add: counter_after_append counter_after_idle)
  from 1 [unfolded v] e f n tc t
  show "\<exists>e evs. tracker_cycles (tracker s) (map getInst cs) = Inr (e # evs, tracker s')
               \<and> (fst e \<longleftrightarrow> drop (length (insts (tracker s)) - 3) (insts (tracker s))
                                = [MAGIC_START0, MAGIC_START1, MAGIC_START2])
               \<and> map fst evs = replicate (a + b + c + 2) False @ True # replicate d False
               \<and> length (filter ((=) ResetMsg) (new_events s s')) = (if fst e then 2 else 1)
               \<and> trace_count s' = 1 + of_nat d
               \<and> \<not> needs_reset (tracker s')"
    by auto
qed

theorem start_sequence_one_event_witness:
  "\<exists>s s' u u'. iterate cfg0 (init_state 100 0) (map quiet [0x13, 0x33]) = Some s
     \<and> insts (tracker s) = [0x13, 0x33]
     \<and> iterate cfg0 s (map quiet [0x04550513, 0x04d50513, 0x04250513, 0x04250513, 0x04550513]) = Some s'
     \<and> filter ((=) ResetMsg) (new_events s s') = [ResetMsg]
     \<and> trace_count s' = 1
     \<and> iterate cfg0 (init_state 100 0) (map quiet [0x13, 0x04550513, 0x04d50513, 0x04250513]) = Some u
     \<and> insts (tracker u) = [0x13, 0x04550513, 0x04d50513, 0x04250513]
     \<and> iterate cfg0 u (map quiet [0x04550513, 0x04d50513, 0x04250513, 0x04250513, 0x04550513]) = Some u'
     \<and> filter ((=) ResetMsg) (new_events u u') = [ResetMsg, ResetMsg]
     \<and> trace_count u' = 1"
proof -
  let ?pre = "map quiet [0x13, 0x33]"
  let ?lap = "map quiet [0x13, 0x04550513, 0x04d50513, 0x04250513]"
  let ?feed = "map quiet [0x04550513, 0x04d50513, 0x04250513, 0x04250513, 0x04550513]"
  have obs: "map getInst ?feed = replicate (Suc 0) 0x04550513 @ replicate (Suc 0) 0x04d50513
                @ replicate (Suc (Suc 0)) 0x04250513 @ replicate (Suc 0) 0x04550513"
    by simp
  have "\<exists>s. iterate cfg0 (init_state 100 0) ?pre = Some s \<and> tracker s = win [0x13, 0x33]
      \<and> ret s = 0 \<and> trace_count s = 2 \<and> max_cycles s = 100"
    by (simp add: run_defs)
  then obtain s where s: "iterate cfg0 (init_state 100 0) ?pre = Some s"
    and t: "tracker s = win [0x13, 0x33]"
    and st: "ret s = 0" "trace_count s = 2" "max_cycles s = 100"
    by blast
  have "insts (tracker s) \<noteq> [] \<and> ret s = 0
      \<and> (\<forall>c\<in>set ?feed. \<not> htif_done c \<and> \<not> clock_lo_throws c)
      \<and> unat (trace_count s) + length ?feed \<le> unat (max_cycles s)"
    by (simp add: t st)
  from start_sequence_one_event [OF s obs, THEN conjunct2, THEN conjunct1, rule_format, OF this]
  obtain s' where s': "iterate cfg0 s ?feed = Some s'" by blast
  from start_sequence_one_event [OF s obs, THEN conjunct2, THEN conjunct2, rule_format, OF s']
  obtain e :: "bool \<times> bool" where
    "fst e \<longleftrightarrow> drop (length (insts (tracker s)) - 3) (insts (tracker s))
                   = [MAGIC_START0, MAGIC_START1, MAGIC_START2]"
    "length (filter ((=) ResetMsg) (new_events s s')) = (if fst e then 2 else 1)"
    "trace_count s' = 1 + of_nat 0"
    by blast
  then have "length (filter ((=) ResetMsg) (new_events s s')) = 1" "trace_count s' = 1"
    by (simp_all add: t)
  with filter_eq_replicate [of ResetMsg "new_events s s'"]
  have one: "filter ((=) ResetMsg) (new_events s s') = [ResetMsg]" "trace_count s' = 1"
    by simp_all
  have "\<exists>u. iterate cfg0 (init_state 100 0) ?lap = Some u
      \<and> tracker u = win [0x13, 0x04550513, 0x04d50513, 0x04250513]
      \<and> ret u = 0 \<and> trace_count u = 4 \<and> max_cycles u = 100"
    by (simp add: run_defs)
  then obtain u where u: "iterate cfg0 (init_state 100 0) ?lap = Some u"
    and tu: "tracker u = win [0x13, 0x04550513, 0x04d50513, 0x04250513]"
    and su: "ret u = 0" "trace_count u = 4" "max_cycles u = 100"
    by blast
  have "insts (tracker u) \<noteq> [] \<and> ret u = 0
      \<and> (\<forall>c\<in>set ?feed. \<not> htif_done c \<and> \<not> clock_lo_throws c)
      \<and> unat (trace_count u) + length ?feed \<le> unat (max_cycles u)"
    by (simp add: tu su)
  from start_sequence_one_event [OF u obs, THEN conjunct2, THEN conjunct1, rule_format, OF this]
  obtain u' where u': "iterate cfg0 u ?feed = Some u'" by blast
  from start_sequence_one_event [OF u obs, THEN conjunct2, THEN conjunct2, rule_format, OF u']
  obtain e :: "bool \<times> bool" where
    "fst e \<longleftrightarrow> drop (length (insts (tracker u)) - 3) (insts (tracker u))
                   = [MAGIC_START0, MAGIC_START1, MAGIC_START2]"
    "length (filter ((=) ResetMsg) (new_events u u')) = (if fst e then 2 else 1)"
    "trace_count u' = 1 + of_nat 0"
    by blast
  then have "length (filter ((=) ResetMsg) (new_events u u')) = Suc (Suc 0)" "trace_count u' = 1"
    by (simp_all add: tu magic_defs)
  with filter_eq_replicate [of ResetMsg "new_events u u'"]
  have two: "filter ((=) ResetMsg) (new_events u u') = [ResetMsg, ResetMsg]" "trace_count u' = 1"
    by simp_all
  from s s' t one u u' tu two show ?thesis by auto
qed

text \<open>
  C5 says that the count reported is zero when the stop event comes in the cycle of a
  start event or immediately after it. A stop event needs the four stop words in the
  window, so that it comes four cycles after a start event at the earliest, and the
  count printed then is 4: the cycle of the reset and the cycles of the first three
  stop words.
\<close>

theorem stop_after_start_reports_four:
  "iterate cfg0 (init_state 100 0)
     (map quiet [0x13, 0x04550513, 0x04d50513, 0x04250513, 0x04550513,
                 0x04350513, 0x04f50513, 0x05350513, 0x04d50513])
     = Some \<lparr>max_cycles = 100, trace_count = 5, ret = 0,
         tracker = win [0x04350513, 0x04f50513, 0x05350513, 0x04d50513],
         htif_in_valid = False, htif_in_bits = 0, Top_io_host_in_valid = False,
         Top_io_host_in_bits = 0, Top_io_host_out_ready = False,
         events = [MmDrive 0, ClockLo, MmTick 0, Dump 0, ClockHi,
                   MmDrive 0, ClockLo, MmTick 0, ClockHi,
                   MmDrive 0, ClockLo, MmTick 0, ClockHi,
                   MmDrive 0, ClockLo, MmTick 0, ClockHi,
                   MmDrive 0, ClockLo, MmTick 0, ResetMsg, Dump 0, ClockHi,
                   MmDrive 0, ClockLo, MmTick 0, ClockHi,
                   MmDrive 0, ClockLo, MmTick 0, ClockHi,
                   MmDrive 0, ClockLo, MmTick 0, ClockHi,
                   MmDrive 0, ClockLo, MmTick 0, CycleCountMsg 4, ClockHi]\<rparr>"
  by (simp add: run_defs printf_d_def)

text \<open>
  C5 as the code has it: in a run of the emulator, let the instructions reported over
  some cycles be the four words of the stop sequence, each held for one or more cycles.
  Then \<^verbatim>\<open>hitStop\<close> answers true in exactly one of these cycles, the first one of the
  fourth word, and exactly one cycle count is printed: the counter at the first of these
  cycles plus the number of cycles of the first three words, as long as that is below
  \<open>2 ^ 31\<close>. Every count printed in the run is the number of cycles completed since the
  counter was last reset (since the beginning, when it never was), the cycle of the
  reset included, again as long as that number is below \<open>2 ^ 31\<close>; the counter at a loop
  head is that number too. No count is printed in an iteration that resets the counter.
  Once the tracker has observed an instruction, none of its reads in these cycles is out
  of range, and the loop goes through all of them when no evaluation has failed or
  fails, the transport is not done and the budget has room for them.
\<close>

theorem stop_sequence_reports_elapsed:
  assumes reach: "iterate cfg (init_state budget b0) cs0 = Some s"
    and obs: "map getInst cs = replicate (Suc a) 0x04350513 @ replicate (Suc b) 0x04f50513
                @ replicate (Suc c) 0x05350513 @ replicate (Suc d) 0x04d50513"
  shows "(insts (tracker s) \<noteq> [] \<longrightarrow>
            (\<exists>evs t'. tracker_cycles (tracker s) (map getInst cs) = Inr (evs, t')))
       \<and> (insts (tracker s) \<noteq> [] \<and> ret s = 0
            \<and> (\<forall>c\<in>set cs. \<not> htif_done c \<and> \<not> clock_lo_throws c)
            \<and> unat (trace_count s) + length cs \<le> unat (max_cycles s) \<longrightarrow>
            (\<exists>s'. iterate cfg s cs = Some s'))
       \<and> (\<forall>s'. iterate cfg s cs = Some s' \<longrightarrow>
            (\<exists>evs. tracker_cycles (tracker s) (map getInst cs) = Inr (evs, tracker s')
               \<and> map snd evs = replicate (a + b + c + 3) False @ True # replicate d False
               \<and> (\<exists>n. filter is_report (new_events s s') = [CycleCountMsg n])
               \<and> (unat (trace_count s) + (a + b + c + 3) < 2 ^ 31 \<longrightarrow>
                    filter is_report (new_events s s')
                      = [CycleCountMsg (int (unat (trace_count s) + (a + b + c + 3)))])
               \<and> reports_exact 0 (events s')))
       \<and> (\<forall>c1 s1. loop_body cfg s c1 = Inr s1 \<and> ResetMsg \<in> set (new_events s s1)
              \<longrightarrow> filter is_report (new_events s s1) = [])
       \<and> unat (trace_count s) = elapsed 0 (events s)"
proof (intro conjI impI allI)
  from iterate_count_inv [OF reach] show "unat (trace_count s) = elapsed 0 (events s)"
    by (simp add: count_inv_def)
next
  note inv = iterate_window_inv [OF reach]
  then have clear: "\<not> needs_emit_cycle_count (tracker s)"
    and calm: "\<not> needs_reset (tracker s)"
    and len: "length (insts (tracker s)) \<le> MAGIC_LEN"
    by (simp_all add: window_inv_def)
  {
    assume "insts (tracker s) \<noteq> []"
    with iterate_reads_in_range [OF reach] have "reads_in_range (tracker s)" by simp
    then show "\<exists>evs t'. tracker_cycles (tracker s) (map getInst cs) = Inr (evs, t')"
      using len by (rule tracker_cycles_in_range)
  }
  {
    assume "insts (tracker s) \<noteq> [] \<and> ret s = 0
            \<and> (\<forall>c\<in>set cs. \<not> htif_done c \<and> \<not> clock_lo_throws c)
            \<and> unat (trace_count s) + length cs \<le> unat (max_cycles s)"
    then have "insts (tracker s) \<noteq> []" "ret s = 0"
      "\<forall>c\<in>set cs. \<not> htif_done c \<and> \<not> clock_lo_throws c"
      "unat (trace_count s) + length cs \<le> unat (max_cycles s)"
      by simp_all
    with reach show "\<exists>s'. iterate cfg s cs = Some s'" by (rule feed_runs)
  }
  {
    fix s' assume run: "iterate cfg s cs = Some s'"
    from iterate_tracker [OF run] obtain evs where
      1: "tracker_cycles (tracker s) (map getInst cs) = Inr (evs, tracker s')"
      and 3: "length (filter is_report (new_events s s')) = length (filter snd evs)"
      by blast
    from stop_sequence_any [OF 1 [unfolded obs] clear len]
    have f: "map snd evs = replicate (a + b + c + 3) False @ True # replicate d False"
      by simp
    have "length (filter snd evs) = length (filter id (map snd evs))"
      by (simp add: filter_map comp_def)
    also have "\<dots> = 1" unfolding f by simp
    finally have "length (filter is_report (new_events s s')) = 1" using 3 by simp
    then have rep: "\<exists>n. filter is_report (new_events s s') = [CycleCountMsg n]"
      by (rule filter_singleton_report)
    have "iterate cfg (init_state budget b0) (cs0 @ cs) = Some s'"
      using reach run by (simp add: iterate_append)
    then have "count_inv s'" by (rule iterate_count_inv)
    then have exact: "reports_exact 0 (events s')" by (simp add: count_inv_def)
    from iterate_reports [OF run] 1
    have "filter is_report (new_events s s') = reports_of (trace_count s) evs" by auto
    also from stop_sequence_no_start [OF 1 [unfolded obs] calm len] f
    have "\<dots> = [CycleCountMsg (printf_d (trace_count s + of_nat (a + b + c + 3)))]"
      by (rule reports_of_single)
    finally have printed: "filter is_report (new_events s s')
        = [CycleCountMsg (printf_d (trace_count s + of_nat (a + b + c + 3)))]" .
    have "unat (trace_count s) + (a + b + c + 3) < 2 ^ 31 \<longrightarrow>
        filter is_report (new_events s s')
          = [CycleCountMsg (int (unat (trace_count s) + (a + b + c + 3)))]"
    proof
      assume "unat (trace_count s) + (a + b + c + 3) < 2 ^ 31"
      then have "printf_d (trace_count s + of_nat (a + b + c + 3))
          = int (unat (trace_count s) + (a + b + c + 3))"
        by (rule printf_d_counter)
      with printed show "filter is_report (new_events s s')
          = [CycleCountMsg (int (unat (trace_count s) + (a + b + c + 3)))]"
        by (simp only:)
    qed
    with 1 f rep exact
    show "\<exists>evs. tracker_cycles (tracker s) (map getInst cs) = Inr (evs, tracker s')
               \<and> map snd evs = replicate (a + b + c + 3) False @ True # replicate d False
               \<and> (\<exists>n. filter is_report (new_events s s') = [CycleCountMsg n])
               \<and> (unat (trace_count s) + (a + b + c + 3) < 2 ^ 31 \<longrightarrow>
                    filter is_report (new_events s s')
                      = [CycleCountMsg (int (unat (trace_count s) + (a + b + c + 3)))])
               \<and> reports_exact 0 (events s')"
      by blast
  }
  fix c1 s1
  assume "loop_body cfg s c1 = Inr s1 \<and> ResetMsg \<in> set (new_events s s1)"
  then have "loop_body cfg s c1 = Inr s1" "ResetMsg \<in> set (new_events s s1)" by simp_all
  with inv show "filter is_report (new_events s s1) = []"
    by (rule reset_and_report_exclusive)
qed

theorem stop_sequence_reports_elapsed_witness:
  "\<exists>s0 s s'. iterate cfg0 (init_state 100 0)
                 (map quiet [0x13, 0x04550513, 0x04d50513, 0x04250513]) = Some s0
     \<and> loop_body cfg0 s0 (quiet 0x04550513) = Inr s
     \<and> filter ((=) ResetMsg) (new_events s0 s) = [ResetMsg]
     \<and> filter is_report (new_events s0 s) = []
     \<and> trace_count s = 1
     \<and> insts (tracker s) = [0x04550513, 0x04d50513, 0x04250513, 0x04550513]
     \<and> iterate cfg0 s (map quiet [0x04350513, 0x04f50513, 0x04f50513, 0x05350513, 0x04d50513]) = Some s'
     \<and> filter is_report (new_events s s') = [CycleCountMsg 5]
     \<and> reports_exact 0 (events s')"
proof -
  let ?lap = "map quiet [0x13, 0x04550513, 0x04d50513, 0x04250513]"
  let ?pre = "map quiet [0x13, 0x04550513, 0x04d50513, 0x04250513, 0x04550513]"
  let ?feed = "map quiet [0x04350513, 0x04f50513, 0x04f50513, 0x05350513, 0x04d50513]"
  have "\<exists>s0. iterate cfg0 (init_state 100 0) ?lap = Some s0 \<and> length (events s0) = 17"
    by (simp add: run_defs)
  then obtain s0 where s0: "iterate cfg0 (init_state 100 0) ?lap = Some s0"
    and e0: "length (events s0) = 17"
    by blast
  have "\<exists>s. iterate cfg0 (init_state 100 0) (?lap @ [quiet 0x04550513]) = Some s
      \<and> filter ((=) ResetMsg) (drop 17 (events s)) = [ResetMsg] \<and> trace_count s = 1
      \<and> insts (tracker s) = [0x04550513, 0x04d50513, 0x04250513, 0x04550513]
      \<and> ret s = 0 \<and> max_cycles s = 100"
    by (simp add: run_defs)
  then obtain s where s: "iterate cfg0 (init_state 100 0) (?lap @ [quiet 0x04550513]) = Some s"
    and r: "filter ((=) ResetMsg) (drop 17 (events s)) = [ResetMsg]" and tc: "trace_count s = 1"
    and w: "insts (tracker s) = [0x04550513, 0x04d50513, 0x04250513, 0x04550513]"
    and st: "ret s = 0" "max_cycles s = 100"
    by blast
  from s0 s have "iterate cfg0 s0 [quiet 0x04550513] = Some s" by (rule iterate_split)
  then have b: "loop_body cfg0 s0 (quiet 0x04550513) = Inr s"
    unfolding iterate_Cons by simp
  from r have r': "filter ((=) ResetMsg) (new_events s0 s) = [ResetMsg]"
    by (simp add: new_events_def e0)
  then have "ResetMsg \<in> set (filter ((=) ResetMsg) (new_events s0 s))" by simp
  then have m: "ResetMsg \<in> set (new_events s0 s)" by simp
  have obs: "map getInst ?feed = replicate (Suc 0) 0x04350513 @ replicate (Suc (Suc 0)) 0x04f50513
                @ replicate (Suc 0) 0x05350513 @ replicate (Suc 0) 0x04d50513"
    by simp
  from stop_sequence_reports_elapsed [OF s0 obs, THEN conjunct2, THEN conjunct2, THEN conjunct2,
      THEN conjunct1, rule_format, of "quiet 0x04550513" s] b m
  have none: "filter is_report (new_events s0 s) = []" by simp
  have s_reach: "iterate cfg0 (init_state 100 0) ?pre = Some s" using s by simp
  have "insts (tracker s) \<noteq> [] \<and> ret s = 0
      \<and> (\<forall>c\<in>set ?feed. \<not> htif_done c \<and> \<not> clock_lo_throws c)
      \<and> unat (trace_count s) + length ?feed \<le> unat (max_cycles s)"
    by (simp add: w tc st)
  from stop_sequence_reports_elapsed [OF s_reach obs, THEN conjunct2, THEN conjunct1,
      rule_format, OF this]
  obtain s' where s': "iterate cfg0 s ?feed = Some s'" by blast
  have small: "unat (trace_count s) + (0 + Suc 0 + 0 + 3) < 2 ^ 31" by (simp add: tc)
  from stop_sequence_reports_elapsed [OF s_reach obs, THEN conjunct2, THEN conjunct2,
      THEN conjunct1, rule_format, OF s']
  have "unat (trace_count s) + (0 + Suc 0 + 0 + 3) < 2 ^ 31 \<longrightarrow>
      filter is_report (new_events s s')
        = [CycleCountMsg (int (unat (trace_count s) + (0 + Suc 0 + 0 + 3)))]"
    and x: "reports_exact 0 (events s')"
    by blast+
  with small have "filter is_report (new_events s s')
        = [CycleCountMsg (int (unat (trace_count s) + (0 + Suc 0 + 0 + 3)))]" by blast
  then have five: "filter is_report (new_events s s') = [CycleCountMsg 5]" by (simp add: tc)
  from s0 b r' none tc w s' five x show ?thesis by blast
qed

subsection \<open>The cycle budget\<close>

text \<open>
  C6: with \<^verbatim>\<open>+max-cycles=100\<close>, a transport that is never done, no failing evaluation and
  no start event in the first 100 cycles (the tracker's reads staying in range), and
  exit code 0 of the transport, the loop ends after exactly 100 iterations with the
  counter at 100, and \<^verbatim>\<open>main\<close> reports the timeout and returns 2.
\<close>

theorem timeout_at_budget:
  assumes len: "100 < length cs"
    and quiet: "\<forall>c\<in>set (take 100 cs). \<not> htif_done c \<and> \<not> clock_lo_throws c"
    and trk: "tracker_cycles MagicTracker_new (map getInst (take 100 cs)) = Inr (evs, t')"
    and nostart: "\<forall>ev\<in>set evs. \<not> fst ev"
  shows "\<exists>s. emulator_main cfg 100 b0 cs 0 = Some (Inr s)
       \<and> length (filter ((=) ClockHi) (events s)) = 100
       \<and> trace_count s = 100 \<and> ret s = 2 \<and> TimeoutMsg 100 \<in> set (events s)"
proof -
  have "length evs = 100" using tracker_cycles_length [OF trk] len by simp
  moreover have "\<forall>b\<in>set (map fst evs). b = False" using nostart by simp
  ultimately have f: "map fst evs = replicate 100 False"
    by (metis length_map replicate_length_same)
  have bound: "\<forall>j<100. counter_after 0 (take j (map fst evs)) < (100 :: 64 word)"
  proof (intro allI impI)
    fix j :: nat assume j: "j < 100"
    then have "take j (map fst evs) = replicate j False"
      unfolding f take_replicate by (simp add: min_def)
    moreover have "(of_nat j :: 64 word) < 100" using j by (intro of_nat_less_word) simp
    ultimately show "counter_after 0 (take j (map fst evs)) < (100 :: 64 word)"
      by (simp add: counter_after_idle)
  qed
  have final: "counter_after 0 (map fst evs) = (100 :: 64 word)"
    unfolding f counter_after_idle by simp
  from run_to_budget [OF len quiet trk bound final] show ?thesis .
qed

theorem timeout_at_budget_witness:
  "\<exists>s. emulator_main cfg0 100 0 (replicate 101 (quiet 0x13)) 0 = Some (Inr s)
     \<and> trace_count s = 100 \<and> ret s = 2 \<and> TimeoutMsg 100 \<in> set (events s)"
proof -
  let ?cs = "replicate 101 (quiet 0x13)"
  have len: "100 < length ?cs" by simp
  have tk: "take 100 ?cs = replicate 100 (quiet 0x13)" by simp
  have q: "\<forall>c\<in>set (take 100 ?cs). \<not> htif_done c \<and> \<not> clock_lo_throws c"
    unfolding tk by simp
  have one: "tracker_cycle MagicTracker_new 0x13 = Inr ((False, False), win [0x13])"
    by (simp add: tracker_defs)
  have "map getInst (take 100 ?cs) = replicate (Suc 99) 0x13" unfolding tk by simp
  with tracker_cycles_run [OF one, of 99]
  have trk: "tracker_cycles MagicTracker_new (map getInst (take 100 ?cs))
      = Inr ((False, False) # replicate 99 (False, False), win [0x13])" by simp
  have ns: "\<forall>ev\<in>set ((False, False) # replicate 99 (False, False)). \<not> fst ev" by simp
  from timeout_at_budget [OF len q trk ns, of cfg0 0] show ?thesis by blast
qed

text \<open>
  C9: the loop compares the counter, which a start event resets, with the budget. When
  the only start event of a run comes in the iteration with index \<open>k\<close> (counted from 0),
  and the transport is never done and no evaluation fails, the loop makes
  \<open>k + max_cycles\<close> iterations before it ends with the counter at the budget and
  \<^verbatim>\<open>main\<close> returns 2. In every run, the timeout is reported only when the transport's
  exit code is 0 and the counter equals the budget at loop exit.
\<close>

theorem budget_counts_from_last_reset:
  assumes k: "k < unat budget"
    and len: "k + unat budget < length cs"
    and quiet: "\<forall>c\<in>set (take (k + unat budget) cs). \<not> htif_done c \<and> \<not> clock_lo_throws c"
    and trk: "tracker_cycles MagicTracker_new (map getInst (take (k + unat budget) cs)) = Inr (evs, t')"
    and one: "map fst evs = replicate k False @ True # replicate (unat budget - 1) False"
  shows "(\<exists>s. emulator_main cfg budget b0 cs 0 = Some (Inr s)
            \<and> length (filter ((=) ClockHi) (events s)) = k + unat budget
            \<and> trace_count s = budget \<and> ret s = 2 \<and> TimeoutMsg budget \<in> set (events s))
       \<and> (\<forall>cs' code s n. emulator_main cfg budget b0 cs' code = Some (Inr s)
              \<and> TimeoutMsg n \<in> set (events s)
            \<longrightarrow> code = 0 \<and> ret s = 2 \<and> trace_count s = max_cycles s \<and> n = trace_count s)"
  using reset_extends_run [OF assms] timeout_only_at_budget by blast

theorem budget_counts_from_last_reset_witness:
  "\<exists>s. emulator_main cfg0 5 0
          (map quiet [0x13, 0x04550513, 0x04d50513, 0x04250513, 0x04550513,
                      0x13, 0x33, 0x13, 0x33, 0x13]) 0 = Some (Inr s)
     \<and> length (filter ((=) ClockHi) (events s)) = 9
     \<and> trace_count s = 5 \<and> ret s = 2 \<and> TimeoutMsg 5 \<in> set (events s)"
proof -
  let ?cs = "map quiet [0x13, 0x04550513, 0x04d50513, 0x04250513, 0x04550513,
                      0x13, 0x33, 0x13, 0x33, 0x13]"
  have u: "unat (5 :: 64 word) = 5" by simp
  have k: "4 < unat (5 :: 64 word)" by simp
  have len: "4 + unat (5 :: 64 word) < length ?cs" by simp
  have tk: "take (4 + unat (5 :: 64 word)) ?cs
      = map quiet [0x13, 0x04550513, 0x04d50513, 0x04250513, 0x04550513, 0x13, 0x33, 0x13, 0x33]"
    by simp
  have q: "\<forall>c\<in>set (take (4 + unat (5 :: 64 word)) ?cs). \<not> htif_done c \<and> \<not> clock_lo_throws c"
    unfolding tk by simp
  have trk: "tracker_cycles MagicTracker_new (map getInst (take (4 + unat (5 :: 64 word)) ?cs))
      = Inr ([(False, False), (False, False), (False, False), (False, False), (True, False),
              (False, False), (False, False), (False, False), (False, False)],
             win [0x13, 0x33, 0x13, 0x33])"
    unfolding tk by (simp add: tracker_defs)
  have one: "map fst [(False, False), (False, False), (False, False), (False, False), (True, False),
              (False, False), (False, False), (False, False), (False, False)]
      = replicate 4 False @ True # replicate (unat (5 :: 64 word) - 1) False"
    unfolding u by (simp add: numeral_eq_Suc)
  from budget_counts_from_last_reset [OF k len q trk one, of cfg0 0] show ?thesis by (simp add: u)
qed

end
